theory Spec2Isabelle
  imports Main "HOL-Library.Finite_Map"
begin

section \<open>The control-flow graph and the analysis state\<close>

text \<open>
  The class \<open>CFG\<close> comes from the external package \<open>code_analysis\<close>. The engine calls four
  of its methods and never mutates it, so a CFG is a record of these four functions:
  \<open>get_node_ids()\<close> returns a list, \<open>get_type(nid)\<close> a string, \<open>get_any_parents(nid)\<close> and
  \<open>get_any_children(nid)\<close> the lists the for loop iterates over.
\<close>

record cfg =
  get_node_ids :: "int list"
  get_type :: "int \<Rightarrow> string"
  get_any_parents :: "int \<Rightarrow> int list"
  get_any_children :: "int \<Rightarrow> int list"

text \<open>
  Exceptions are values. \<open>KeyError\<close> is raised by a dictionary read of a missing key,
  \<open>IndexError\<close> by \<open>pop\<close> on an empty list (or by the predicate); \<open>PatternError\<close> stands for
  any other exception a predicate raises.
\<close>

datatype error = KeyError | IndexError | PatternError

text \<open>
  \<open>PatternCheck = Callable[[CFG, int], bool]\<close>: the call either returns a boolean or raises.
\<close>

type_synonym PatternCheck = "cfg \<Rightarrow> int \<Rightarrow> error + bool"

text \<open>The four attributes \<open>__call__\<close> resets; Python dictionaries are finite maps.\<close>

record state =
  visited :: "int set"
  worklist :: "int list"
  in_dict :: "(int, bool) fmap"
  out_dict :: "(int, bool) fmap"

text \<open>The two concrete subclasses of \<open>DefinitelyPTFA\<close>; method calls dispatch on the class.\<close>

datatype analysis = DefinitelyReachablePTFA | DefinitelyReachingPTFA

section \<open>The methods of the two subclasses\<close>

text \<open>
  Both files define the same five methods, up to where \<open>check_pattern\<close> comes from (an
  attribute in \<open>ptfa.py\<close>, a parameter in \<open>main.py\<close>); they are modelled once.
\<close>

definition get_exit_node :: "cfg \<Rightarrow> int list" where
  "get_exit_node c = filter (\<lambda>nid. get_type c nid = ''Exit'') (get_node_ids c)"

definition get_entry_node :: "cfg \<Rightarrow> int list" where
  "get_entry_node c = filter (\<lambda>nid. get_type c nid = ''Entry'') (get_node_ids c)"

text \<open>
  \<open>pre_loop_init\<close> is a generator: for each seed it writes the boundary fact, marks the
  seed visited, pushes it and yields. \<open>pre_loop_init_nodes\<close> is the sequence it iterates
  over and \<open>pre_loop_init_step\<close> what it does before each \<open>yield\<close>.
\<close>

fun pre_loop_init_nodes :: "analysis \<Rightarrow> cfg \<Rightarrow> int list" where
  "pre_loop_init_nodes DefinitelyReachablePTFA c = get_exit_node c"
| "pre_loop_init_nodes DefinitelyReachingPTFA c = get_entry_node c"

fun pre_loop_init_step :: "analysis \<Rightarrow> state \<Rightarrow> int \<Rightarrow> state" where
  "pre_loop_init_step DefinitelyReachablePTFA st exit_nid =
     st\<lparr>out_dict := fmupd exit_nid False (out_dict st),
        visited := insert exit_nid (visited st),
        worklist := worklist st @ [exit_nid]\<rparr>"
| "pre_loop_init_step DefinitelyReachingPTFA st entry_nid =
     st\<lparr>in_dict := fmupd entry_nid False (in_dict st),
        visited := insert entry_nid (visited st),
        worklist := worklist st @ [entry_nid]\<rparr>"

text \<open>
  \<open>check_node\<close>: \<open>in_dict[nid] = out_dict[nid] or check_pattern(cfg, nid)\<close>. The read raises
  \<open>KeyError\<close> on a missing key; \<open>or\<close> calls the predicate only when the left operand is
  \<open>False\<close>.
\<close>

fun check_node :: "analysis \<Rightarrow> cfg \<Rightarrow> PatternCheck \<Rightarrow> state \<Rightarrow> int \<Rightarrow> error + state" where
  "check_node DefinitelyReachablePTFA c check_pattern st nid =
     (case fmlookup (out_dict st) nid of
        None \<Rightarrow> Inl KeyError
      | Some True \<Rightarrow> Inr (st\<lparr>in_dict := fmupd nid True (in_dict st)\<rparr>)
      | Some False \<Rightarrow>
          (case check_pattern c nid of
             Inl e \<Rightarrow> Inl e
           | Inr b \<Rightarrow> Inr (st\<lparr>in_dict := fmupd nid b (in_dict st)\<rparr>)))"
| "check_node DefinitelyReachingPTFA c check_pattern st nid =
     (case fmlookup (in_dict st) nid of
        None \<Rightarrow> Inl KeyError
      | Some True \<Rightarrow> Inr (st\<lparr>out_dict := fmupd nid True (out_dict st)\<rparr>)
      | Some False \<Rightarrow>
          (case check_pattern c nid of
             Inl e \<Rightarrow> Inl e
           | Inr b \<Rightarrow> Inr (st\<lparr>out_dict := fmupd nid b (out_dict st)\<rparr>)))"

fun next_nodes :: "analysis \<Rightarrow> cfg \<Rightarrow> int \<Rightarrow> int list" where
  "next_nodes DefinitelyReachablePTFA c nid = get_any_parents c nid"
| "next_nodes DefinitelyReachingPTFA c nid = get_any_children c nid"

text \<open>\<open>can_propagate\<close>: \<open>in_dict[nid] < out_dict[next_nid]\<close>, left read first.\<close>

fun can_propagate :: "analysis \<Rightarrow> state \<Rightarrow> int \<Rightarrow> int \<Rightarrow> error + bool" where
  "can_propagate DefinitelyReachablePTFA st nid next_nid =
     (case fmlookup (in_dict st) nid of
        None \<Rightarrow> Inl KeyError
      | Some a \<Rightarrow>
          (case fmlookup (out_dict st) next_nid of
             None \<Rightarrow> Inl KeyError
           | Some b \<Rightarrow> Inr (a < b)))"
| "can_propagate DefinitelyReachingPTFA st nid next_nid =
     (case fmlookup (out_dict st) nid of
        None \<Rightarrow> Inl KeyError
      | Some a \<Rightarrow>
          (case fmlookup (in_dict st) next_nid of
             None \<Rightarrow> Inl KeyError
           | Some b \<Rightarrow> Inr (a < b)))"

text \<open>\<open>propagate\<close>: \<open>out_dict[next_nid] = in_dict[nid]\<close>; the write creates a missing key.\<close>

fun propagate :: "analysis \<Rightarrow> state \<Rightarrow> int \<Rightarrow> int \<Rightarrow> error + state" where
  "propagate DefinitelyReachablePTFA st nid next_nid =
     (case fmlookup (in_dict st) nid of
        None \<Rightarrow> Inl KeyError
      | Some a \<Rightarrow> Inr (st\<lparr>out_dict := fmupd next_nid a (out_dict st)\<rparr>))"
| "propagate DefinitelyReachingPTFA st nid next_nid =
     (case fmlookup (out_dict st) nid of
        None \<Rightarrow> Inl KeyError
      | Some a \<Rightarrow> Inr (st\<lparr>in_dict := fmupd next_nid a (in_dict st)\<rparr>))"

section \<open>The engine of \<open>ptfa.py\<close>\<close>

text \<open>The state after the resets and the two dictionary comprehensions.\<close>

definition call_init :: "cfg \<Rightarrow> state" where
  "call_init c =
     \<lparr>visited = {}, worklist = [],
      in_dict = fmap_of_list (map (\<lambda>k. (k, True)) (get_node_ids c)),
      out_dict = fmap_of_list (map (\<lambda>k. (k, True)) (get_node_ids c))\<rparr>"

text \<open>
  The body of \<open>for next_nid in self.next_nodes(nid)\<close>: the guard is evaluated first (and may
  raise), then the membership test; on success propagate, append, add.
\<close>

definition call_next :: "analysis \<Rightarrow> int \<Rightarrow> int \<Rightarrow> state \<Rightarrow> error + state" where
  "call_next a nid next_nid st =
     (case can_propagate a st nid next_nid of
        Inl e \<Rightarrow> Inl e
      | Inr g \<Rightarrow>
          if g \<or> next_nid \<notin> visited st then
            (case propagate a st nid next_nid of
               Inl e \<Rightarrow> Inl e
             | Inr st' \<Rightarrow>
                 Inr (st'\<lparr>worklist := worklist st' @ [next_nid],
                          visited := insert next_nid (visited st')\<rparr>))
          else Inr st)"

text \<open>The for loop over the neighbours; an exception ends it.\<close>

fun call_for_next :: "analysis \<Rightarrow> int \<Rightarrow> int list \<Rightarrow> state \<Rightarrow> error + state" where
  "call_for_next a nid [] st = Inr st"
| "call_for_next a nid (next_nid # rest) st =
     (case call_next a nid next_nid st of
        Inl e \<Rightarrow> Inl e
      | Inr st' \<Rightarrow> call_for_next a nid rest st')"

text \<open>
  One iteration of \<open>while self.worklist\<close>, for a non-empty worklist: \<open>pop()\<close> removes the
  last element, then the node check, then the for loop.
\<close>

definition call_body :: "analysis \<Rightarrow> cfg \<Rightarrow> PatternCheck \<Rightarrow> state \<Rightarrow> error + state" where
  "call_body a c check_pattern st =
     (let nid = last (worklist st);
          st1 = st\<lparr>worklist := butlast (worklist st)\<rparr>
      in case check_node a c check_pattern st1 nid of
           Inl e \<Rightarrow> Inl e
         | Inr st2 \<Rightarrow> call_for_next a nid (next_nodes a c nid) st2)"

text \<open>The while loop; a loop that never ends has the value \<open>None\<close>.\<close>

partial_function (option) call_while ::
  "analysis \<Rightarrow> cfg \<Rightarrow> PatternCheck \<Rightarrow> state \<Rightarrow> (error + state) option" where
  [code]: "call_while a c check_pattern st =
     (if worklist st = [] then Some (Inr st)
      else case call_body a c check_pattern st of
             Inl e \<Rightarrow> Some (Inl e)
           | Inr st' \<Rightarrow> call_while a c check_pattern st')"

text \<open>
  \<open>for _ in self.pre_loop_init()\<close>: the generator seeds one node, yields, and the while loop
  runs before the next seed is produced.
\<close>

fun call_for_seeds ::
  "analysis \<Rightarrow> cfg \<Rightarrow> PatternCheck \<Rightarrow> int list \<Rightarrow> state \<Rightarrow> (error + state) option" where
  "call_for_seeds a c check_pattern [] st = Some (Inr st)"
| "call_for_seeds a c check_pattern (seed # seeds) st =
     (case call_while a c check_pattern (pre_loop_init_step a st seed) of
        None \<Rightarrow> None
      | Some (Inl e) \<Rightarrow> Some (Inl e)
      | Some (Inr st') \<Rightarrow> call_for_seeds a c check_pattern seeds st')"

text \<open>
  \<open>call_run\<close> is the state of the object when \<open>__call__\<close> reaches its return statement (the
  attributes stay on the object), \<open>call\<close> the returned pair \<open>(in_dict, out_dict)\<close>.
\<close>

definition call_run :: "analysis \<Rightarrow> cfg \<Rightarrow> PatternCheck \<Rightarrow> (error + state) option" where
  "call_run a c check_pattern =
     call_for_seeds a c check_pattern (pre_loop_init_nodes a c) (call_init c)"

definition call ::
  "analysis \<Rightarrow> cfg \<Rightarrow> PatternCheck \<Rightarrow> (error + (int, bool) fmap \<times> (int, bool) fmap) option" where
  "call a c check_pattern =
     map_option (map_sum id (\<lambda>st. (in_dict st, out_dict st))) (call_run a c check_pattern)"

section \<open>The engine of \<open>main.py\<close>\<close>

text \<open>
  \<open>main.py\<close> binds the CFG at construction and writes the loop as
  \<open>with suppress(IndexError): while nid := self.worklist.pop(): ...\<close>. The pop on an empty
  list raises \<open>IndexError\<close>, which \<open>suppress\<close> swallows; a popped id that is falsy (\<open>0\<close>)
  ends the while loop as well, with the id already removed. An \<open>IndexError\<close> raised by the
  predicate inside the block is swallowed in the same way (the state is then the one after
  the pop, since \<open>check_node\<close> raises before it writes). The for loop raises nothing but
  \<open>KeyError\<close>, which passes through.
\<close>

partial_function (option) main_call_while ::
  "analysis \<Rightarrow> cfg \<Rightarrow> PatternCheck \<Rightarrow> state \<Rightarrow> (error + state) option" where
  [code]: "main_call_while a c check_pattern st =
     (if worklist st = [] then Some (Inr st)
      else
        let nid = last (worklist st);
            st1 = st\<lparr>worklist := butlast (worklist st)\<rparr>
        in if nid = 0 then Some (Inr st1)
           else
             (case check_node a c check_pattern st1 nid of
                Inl e \<Rightarrow> if e = IndexError then Some (Inr st1) else Some (Inl e)
              | Inr st2 \<Rightarrow>
                  (case call_for_next a nid (next_nodes a c nid) st2 of
                     Inl e \<Rightarrow> Some (Inl e)
                   | Inr st3 \<Rightarrow> main_call_while a c check_pattern st3)))"

fun main_call_for_seeds ::
  "analysis \<Rightarrow> cfg \<Rightarrow> PatternCheck \<Rightarrow> int list \<Rightarrow> state \<Rightarrow> (error + state) option" where
  "main_call_for_seeds a c check_pattern [] st = Some (Inr st)"
| "main_call_for_seeds a c check_pattern (seed # seeds) st =
     (case main_call_while a c check_pattern (pre_loop_init_step a st seed) of
        None \<Rightarrow> None
      | Some (Inl e) \<Rightarrow> Some (Inl e)
      | Some (Inr st') \<Rightarrow> main_call_for_seeds a c check_pattern seeds st')"

definition main_call_run :: "analysis \<Rightarrow> cfg \<Rightarrow> PatternCheck \<Rightarrow> (error + state) option" where
  "main_call_run a c check_pattern =
     main_call_for_seeds a c check_pattern (pre_loop_init_nodes a c) (call_init c)"

definition main_call ::
  "analysis \<Rightarrow> cfg \<Rightarrow> PatternCheck \<Rightarrow> (error + (int, bool) fmap \<times> (int, bool) fmap) option" where
  "main_call a c check_pattern =
     map_option (map_sum id (\<lambda>st. (in_dict st, out_dict st))) (main_call_run a c check_pattern)"

text \<open>The predicate of \<open>main.py\<close>: \<open>cfg.get_type(nid) == "Pattern"\<close>.\<close>

definition check_pattern :: PatternCheck where
  "check_pattern c nid = Inr (get_type c nid = ''Pattern'')"

section \<open>Notions used to state and prove the properties\<close>

text \<open>
  The two analyses mirror each other: the dictionary a node check writes is the "near"
  one (\<open>in_dict\<close> for the backward analysis), the one seeding and propagation write is the
  "far" one.
\<close>

fun near_dict :: "analysis \<Rightarrow> state \<Rightarrow> (int, bool) fmap" where
  "near_dict DefinitelyReachablePTFA st = in_dict st"
| "near_dict DefinitelyReachingPTFA st = out_dict st"

fun far_dict :: "analysis \<Rightarrow> state \<Rightarrow> (int, bool) fmap" where
  "far_dict DefinitelyReachablePTFA st = out_dict st"
| "far_dict DefinitelyReachingPTFA st = in_dict st"

text \<open>
  The quantity that decreases with each iteration of the while loop: two units for each
  key not yet visited, one for each far fact that is still \<open>True\<close>, one for each pending
  worklist entry.
\<close>

definition measure_of :: "analysis \<Rightarrow> state \<Rightarrow> nat" where
  "measure_of a st =
     2 * card (fmdom' (far_dict a st) - visited st)
     + card {k \<in> fmdom' (far_dict a st). fmlookup (far_dict a st) k = Some True}
     + length (worklist st)"

text \<open>Both dictionaries have exactly the node ids as keys, and the worklist holds node ids.\<close>

definition keys_inv :: "cfg \<Rightarrow> state \<Rightarrow> bool" where
  "keys_inv c st \<longleftrightarrow>
     fmdom' (in_dict st) = set (get_node_ids c) \<and>
     fmdom' (out_dict st) = set (get_node_ids c) \<and>
     set (worklist st) \<subseteq> set (get_node_ids c)"

text \<open>
  A CFG is well formed for an analysis when the adjacency the analysis follows stays
  inside \<open>get_node_ids()\<close>.
\<close>

definition well_formed :: "analysis \<Rightarrow> cfg \<Rightarrow> bool" where
  "well_formed a c \<longleftrightarrow>
     (\<forall>nid \<in> set (get_node_ids c). \<forall>m \<in> set (next_nodes a c nid). m \<in> set (get_node_ids c))"

text \<open>The predicate returns a boolean (raises nothing) on every node of the CFG.\<close>

definition returns_bool :: "cfg \<Rightarrow> PatternCheck \<Rightarrow> bool" where
  "returns_bool c P \<longleftrightarrow> (\<forall>nid \<in> set (get_node_ids c). \<not> isl (P c nid))"

text \<open>
  Two facts about every state of a run: a far fact that is \<open>False\<close> belongs to a visited
  node, and a near fact that is \<open>False\<close> sits over a \<open>False\<close> far fact at a node where the
  predicate returned \<open>False\<close>.
\<close>

definition mono_inv :: "analysis \<Rightarrow> cfg \<Rightarrow> PatternCheck \<Rightarrow> state \<Rightarrow> bool" where
  "mono_inv a c P st \<longleftrightarrow>
     (\<forall>k. k \<notin> visited st \<longrightarrow> fmlookup (far_dict a st) k \<noteq> Some False) \<and>
     (\<forall>k. fmlookup (near_dict a st) k = Some False \<longrightarrow>
          fmlookup (far_dict a st) k = Some False \<and> P c k = Inr False)"

text \<open>
  \<open>fact_decrease d d'\<close>: going from dictionary \<open>d\<close> to \<open>d'\<close>, every entry is unchanged or has
  gone from \<open>True\<close> to \<open>False\<close>.
\<close>

definition fact_decrease :: "(int, bool) fmap \<Rightarrow> (int, bool) fmap \<Rightarrow> bool" where
  "fact_decrease d d' \<longleftrightarrow>
     (\<forall>k. fmlookup d' k = fmlookup d k \<or> (fmlookup d k = Some True \<and> fmlookup d' k = Some False))"

definition facts_decrease :: "state \<Rightarrow> state \<Rightarrow> bool" where
  "facts_decrease st st' \<longleftrightarrow>
     fact_decrease (in_dict st) (in_dict st') \<and> fact_decrease (out_dict st) (out_dict st')"

text \<open>
  The write steps of a run, as \<open>__call__\<close> performs them: the generator seeds a node; the
  while loop pops a node and checks it; the for loop handles one neighbour. \<open>run_state\<close>
  holds of the states a run goes through.
\<close>

inductive run_step :: "analysis \<Rightarrow> cfg \<Rightarrow> PatternCheck \<Rightarrow> state \<Rightarrow> state \<Rightarrow> bool"
  for a c P where
  seed: "s \<in> set (pre_loop_init_nodes a c) \<Longrightarrow> run_step a c P st (pre_loop_init_step a st s)"
| check: "worklist st \<noteq> [] \<Longrightarrow>
     check_node a c P (st\<lparr>worklist := butlast (worklist st)\<rparr>) (last (worklist st)) = Inr st' \<Longrightarrow>
     run_step a c P st st'"
| neighbour: "call_next a nid next_nid st = Inr st' \<Longrightarrow> run_step a c P st st'"

inductive run_state :: "analysis \<Rightarrow> cfg \<Rightarrow> PatternCheck \<Rightarrow> state \<Rightarrow> bool"
  for a c P where
  init: "run_state a c P (call_init c)"
| step: "run_state a c P st \<Longrightarrow> run_step a c P st st' \<Longrightarrow> run_state a c P st'"

code_pred run_step .

code_pred run_state .

section \<open>Notions for the fixpoint property\<close>

text \<open>
  \<open>node_ok\<close>: the near fact of a node is what the node check would write.
  \<open>edge_ok\<close>: the propagation guard does not hold on the edge. \<open>fix_inv\<close>: every node
  outside the worklist is settled, on the edges listed by \<open>G\<close>.
\<close>

definition node_ok :: "analysis \<Rightarrow> cfg \<Rightarrow> PatternCheck \<Rightarrow> state \<Rightarrow> int \<Rightarrow> bool" where
  "node_ok a c P st n \<longleftrightarrow>
     (\<forall>f. fmlookup (far_dict a st) n = Some f \<longrightarrow>
        (if f then fmlookup (near_dict a st) n = Some True
         else (\<exists>b. P c n = Inr b \<and> fmlookup (near_dict a st) n = Some b)))"

definition edge_ok :: "analysis \<Rightarrow> state \<Rightarrow> int \<Rightarrow> int \<Rightarrow> bool" where
  "edge_ok a st n m \<longleftrightarrow>
     \<not> (fmlookup (near_dict a st) n = Some False \<and> fmlookup (far_dict a st) m = Some True)"

definition fix_inv ::
  "analysis \<Rightarrow> cfg \<Rightarrow> PatternCheck \<Rightarrow> (int \<Rightarrow> int set) \<Rightarrow> state \<Rightarrow> bool" where
  "fix_inv a c P G st \<longleftrightarrow>
     (\<forall>n. n \<notin> set (worklist st) \<longrightarrow> node_ok a c P st n \<and> (\<forall>m \<in> G n. edge_ok a st n m))"

text \<open>
  \<open>is_fixpoint a c P i out\<close>: on the dictionaries \<open>i\<close> and \<open>out\<close>, the node check of every
  node succeeds and leaves both dictionaries as they are, and so does the propagation on
  every edge whose guard holds.
\<close>

definition is_fixpoint ::
  "analysis \<Rightarrow> cfg \<Rightarrow> PatternCheck \<Rightarrow> (int, bool) fmap \<Rightarrow> (int, bool) fmap \<Rightarrow> bool" where
  "is_fixpoint a c P i out \<longleftrightarrow>
     (let st = \<lparr>visited = {}, worklist = [], in_dict = i, out_dict = out\<rparr> in
      \<forall>nid \<in> set (get_node_ids c).
        (case check_node a c P st nid of
           Inl e \<Rightarrow> False
         | Inr st' \<Rightarrow> in_dict st' = i \<and> out_dict st' = out) \<and>
        (\<forall>next_nid \<in> set (next_nodes a c nid).
           (case can_propagate a st nid next_nid of
              Inl e \<Rightarrow> False
            | Inr g \<Rightarrow>
                g \<longrightarrow>
                (case propagate a st nid next_nid of
                   Inl e \<Rightarrow> False
                 | Inr st' \<Rightarrow> in_dict st' = i \<and> out_dict st' = out))))"

section \<open>Example graphs\<close>

text \<open>The linear chain \<open>Entry \<rightarrow> A \<rightarrow> Exit\<close> with ids 1, 2, 3; node 2 has type \<open>Pattern\<close>.\<close>

definition cfg_chain :: cfg where
  "cfg_chain =
     \<lparr>get_node_ids = [1, 2, 3],
      get_type = (\<lambda>nid. if nid = 1 then ''Entry'' else if nid = 2 then ''Pattern'' else ''Exit''),
      get_any_parents = (\<lambda>nid. if nid = 2 then [1] else if nid = 3 then [2] else []),
      get_any_children = (\<lambda>nid. if nid = 1 then [2] else if nid = 2 then [3] else [])\<rparr>"

text \<open>A graph with a cycle: \<open>1 \<rightarrow> 2 \<rightarrow> 3 \<rightarrow> 4\<close> and the back edge \<open>3 \<rightarrow> 2\<close>.\<close>

definition cfg_loop :: cfg where
  "cfg_loop =
     \<lparr>get_node_ids = [1, 2, 3, 4],
      get_type = (\<lambda>nid. if nid = 1 then ''Entry'' else if nid = 4 then ''Exit''
                        else if nid = 3 then ''Pattern'' else ''Stmt''),
      get_any_parents = (\<lambda>nid. if nid = 2 then [1, 3] else if nid = 3 then [2]
                               else if nid = 4 then [3] else []),
      get_any_children = (\<lambda>nid. if nid = 1 then [2] else if nid = 2 then [3]
                                else if nid = 3 then [2, 4] else [])\<rparr>"

text \<open>A single isolated node of type \<open>Exit\<close>.\<close>

definition cfg_single_exit :: cfg where
  "cfg_single_exit =
     \<lparr>get_node_ids = [1], get_type = (\<lambda>nid. ''Exit''),
      get_any_parents = (\<lambda>nid. []), get_any_children = (\<lambda>nid. [])\<rparr>"

text \<open>
  A malformed graph: the Exit node 1 has parent 7 and the Entry node 2 has child 7, and 7
  is not a node id.
\<close>

definition cfg_dangling :: cfg where
  "cfg_dangling =
     \<lparr>get_node_ids = [1, 2],
      get_type = (\<lambda>nid. if nid = 1 then ''Exit'' else ''Entry''),
      get_any_parents = (\<lambda>nid. if nid = 1 then [7] else []),
      get_any_children = (\<lambda>nid. if nid = 2 then [7] else [])\<rparr>"

section \<open>Reading a result\<close>

text \<open>
  The fact a returned pair \<open>(in, out)\<close> holds for a node (\<open>None\<close> when the run raised or
  the node is no key), and the worklist left on the object at return.
\<close>

definition in_fact ::
  "(error + (int, bool) fmap \<times> (int, bool) fmap) option \<Rightarrow> int \<Rightarrow> bool option" where
  "in_fact r nid = (case r of Some (Inr (i, out)) \<Rightarrow> fmlookup i nid | _ \<Rightarrow> None)"

definition out_fact ::
  "(error + (int, bool) fmap \<times> (int, bool) fmap) option \<Rightarrow> int \<Rightarrow> bool option" where
  "out_fact r nid = (case r of Some (Inr (i, out)) \<Rightarrow> fmlookup out nid | _ \<Rightarrow> None)"

definition final_worklist :: "(error + state) option \<Rightarrow> int list option" where
  "final_worklist r = (case r of Some (Inr st) \<Rightarrow> Some (worklist st) | _ \<Rightarrow> None)"

section \<open>Further example predicates and graphs\<close>

text \<open>A predicate that holds at every node.\<close>

definition always_True :: PatternCheck where
  "always_True c nid = Inr True"

text \<open>A single isolated node of type \<open>Entry\<close>.\<close>

definition cfg_single_entry :: cfg where
  "cfg_single_entry =
     \<lparr>get_node_ids = [1], get_type = (\<lambda>nid. ''Entry''),
      get_any_parents = (\<lambda>nid. []), get_any_children = (\<lambda>nid. [])\<rparr>"

text \<open>The chain \<open>Entry \<rightarrow> A \<rightarrow> Exit\<close> with ids 1, 0, 2: the middle node has id \<open>0\<close>.\<close>

definition cfg_zero :: cfg where
  "cfg_zero =
     \<lparr>get_node_ids = [1, 0, 2],
      get_type = (\<lambda>nid. if nid = 1 then ''Entry'' else if nid = 2 then ''Exit'' else ''Stmt''),
      get_any_parents = (\<lambda>nid. if nid = 0 then [1] else if nid = 2 then [0] else []),
      get_any_children = (\<lambda>nid. if nid = 1 then [0] else if nid = 0 then [2] else [])\<rparr>"

text \<open>An Exit node 1 with the two parents 2 and 0.\<close>

definition cfg_zero_fork :: cfg where
  "cfg_zero_fork =
     \<lparr>get_node_ids = [1, 0, 2],
      get_type = (\<lambda>nid. if nid = 1 then ''Exit'' else ''Stmt''),
      get_any_parents = (\<lambda>nid. if nid = 1 then [2, 0] else []),
      get_any_children = (\<lambda>nid. if nid = 1 then [] else [1])\<rparr>"

section \<open>Loop rules, measure and invariants\<close>

lemma call_for_next_rule:
  assumes "Q ds st"
    and "\<And>ds m s s'. Q ds s \<Longrightarrow> call_next a nid m s = Inr s' \<Longrightarrow> Q (ds @ [m]) s'"
    and "call_for_next a nid ms st = Inr st'"
  shows "Q (ds @ ms) st'"
  using assms(1,3)
proof (induction ms arbitrary: ds st)
  case Nil
  then show ?case by simp
next
  case (Cons m ms)
  from Cons.prems(2) obtain s1 where s1: "call_next a nid m st = Inr s1"
    and rest: "call_for_next a nid ms s1 = Inr st'"
    by (cases "call_next a nid m st") simp_all
  have "Q (ds @ [m]) s1" using assms(2) Cons.prems(1) s1 by blast
  from Cons.IH[OF this rest] show ?case by simp
qed

text \<open>\<open>call_next\<close> and \<open>check_node\<close> read through the near and the far dictionary.\<close>

lemma call_next_D:
  assumes "call_next a nid m st = Inr st'"
  shows "\<exists>b f. fmlookup (near_dict a st) nid = Some b \<and> fmlookup (far_dict a st) m = Some f \<and>
     (if b < f \<or> m \<notin> visited st
      then far_dict a st' = fmupd m b (far_dict a st) \<and> near_dict a st' = near_dict a st \<and>
           visited st' = insert m (visited st) \<and> worklist st' = worklist st @ [m]
      else st' = st)"
proof (cases a)
  case DefinitelyReachablePTFA
  with assms obtain b f where bf: "fmlookup (in_dict st) nid = Some b" "fmlookup (out_dict st) m = Some f"
    by (auto simp: call_next_def split: option.splits)
  with assms DefinitelyReachablePTFA show ?thesis
    by (cases "b < f \<or> m \<notin> visited st") (auto simp: call_next_def)
next
  case DefinitelyReachingPTFA
  with assms obtain b f where bf: "fmlookup (out_dict st) nid = Some b" "fmlookup (in_dict st) m = Some f"
    by (auto simp: call_next_def split: option.splits)
  with assms DefinitelyReachingPTFA show ?thesis
    by (cases "b < f \<or> m \<notin> visited st") (auto simp: call_next_def)
qed

lemma call_next_cases:
  assumes "call_next a nid m st = Inr st'"
  obtains (skip) b f where "fmlookup (near_dict a st) nid = Some b" "fmlookup (far_dict a st) m = Some f"
      "\<not> b < f" "m \<in> visited st" "st' = st"
  | (push) b f where "fmlookup (near_dict a st) nid = Some b" "fmlookup (far_dict a st) m = Some f"
      "b < f \<or> m \<notin> visited st"
      "far_dict a st' = fmupd m b (far_dict a st)" "near_dict a st' = near_dict a st"
      "visited st' = insert m (visited st)" "worklist st' = worklist st @ [m]"
proof -
  from call_next_D[OF assms] obtain b f where
    bf: "fmlookup (near_dict a st) nid = Some b" "fmlookup (far_dict a st) m = Some f"
    and r: "if b < f \<or> m \<notin> visited st
      then far_dict a st' = fmupd m b (far_dict a st) \<and> near_dict a st' = near_dict a st \<and>
           visited st' = insert m (visited st) \<and> worklist st' = worklist st @ [m]
      else st' = st" by blast
  show thesis
  proof (cases "b < f \<or> m \<notin> visited st")
    case True
    with r bf show thesis by (intro push[of b f]) simp_all
  next
    case False
    with r bf show thesis by (intro skip[of b f]) simp_all
  qed
qed

lemma check_node_cases:
  assumes "check_node a c P st nid = Inr st'"
  obtains (top) "fmlookup (far_dict a st) nid = Some True"
      "near_dict a st' = fmupd nid True (near_dict a st)" "far_dict a st' = far_dict a st"
      "visited st' = visited st" "worklist st' = worklist st"
  | (bot) b where "fmlookup (far_dict a st) nid = Some False" "P c nid = Inr b"
      "near_dict a st' = fmupd nid b (near_dict a st)" "far_dict a st' = far_dict a st"
      "visited st' = visited st" "worklist st' = worklist st"
  using assms
  by (cases a) (auto split: option.splits bool.splits sum.splits)

lemma measure_call_next:
  assumes "call_next a nid m st = Inr st'"
  shows "measure_of a st' \<le> measure_of a st"
  using assms
proof (cases rule: call_next_cases)
  case (skip b f)
  then show ?thesis by simp
next
  case (push b f)
  define F where "F = far_dict a st"
  define T where "T = {k \<in> fmdom' F. fmlookup F k = Some True}"
  define T' where "T' = {k \<in> fmdom' F. fmlookup (fmupd m b F) k = Some True}"
  define U where "U = fmdom' F - visited st"
  define U' where "U' = fmdom' F - insert m (visited st)"
  have mdom: "m \<in> fmdom' F" using push(2) by (simp add: F_def fmdom'I)
  then have dom: "fmdom' (fmupd m b F) = fmdom' F" by auto
  have fin: "finite T" "finite U" by (simp_all add: T_def U_def)
  have old: "measure_of a st = 2 * card U + card T + length (worklist st)"
    by (simp add: measure_of_def F_def T_def U_def)
  have new: "measure_of a st' = 2 * card U' + card T' + (length (worklist st) + 1)"
    unfolding measure_of_def push(4,6,7) F_def[symmetric] dom T'_def U'_def by simp
  have "2 * card U' + card T' + 1 \<le> 2 * card U + card T"
  proof (cases "b < f")
    case True
    then have bf: "b = False" "f = True" by auto
    have eq: "T' = T - {m}" using bf by (auto simp: T'_def T_def)
    have mem: "m \<in> T" using bf push(2) mdom by (simp add: T_def F_def)
    have "Suc (card (T - {m})) = card T" using fin(1) mem by (rule card_Suc_Diff1)
    then have "card T' + 1 = card T" by (simp only: eq Suc_eq_plus1)
    moreover have "card U' \<le> card U" using fin(2) by (intro card_mono) (auto simp: U'_def U_def)
    ultimately show ?thesis by linarith
  next
    case False
    with push(3) have nv: "m \<notin> visited st" by blast
    have "T' \<subseteq> insert m T" by (auto simp: T'_def T_def)
    then have "card T' \<le> card (insert m T)" using fin(1) by (intro card_mono) simp_all
    also have "\<dots> \<le> card T + 1" using fin(1) by (simp add: card_insert_if)
    finally have t: "card T' \<le> card T + 1" .
    have eq: "U' = U - {m}" by (auto simp: U'_def U_def)
    have mem: "m \<in> U" using nv mdom by (simp add: U_def)
    have "Suc (card (U - {m})) = card U" using fin(2) mem by (rule card_Suc_Diff1)
    then have "card U' + 1 = card U" by (simp only: eq Suc_eq_plus1)
    with t show ?thesis by linarith
  qed
  with old new show ?thesis by linarith
qed

lemma measure_call_for_next:
  assumes "call_for_next a nid ms st = Inr st'"
  shows "measure_of a st' \<le> measure_of a st"
proof -
  have "(\<lambda>_ s. measure_of a s \<le> measure_of a st) ([] @ ms) st'"
  proof (rule call_for_next_rule[OF _ _ assms])
    show "measure_of a st \<le> measure_of a st" by simp
  next
    fix ds :: "int list" and m s s'
    assume "measure_of a s \<le> measure_of a st" "call_next a nid m s = Inr s'"
    then show "measure_of a s' \<le> measure_of a st"
      using measure_call_next[of a nid m s s'] by simp
  qed
  then show ?thesis by simp
qed

lemma measure_call_body:
  assumes "worklist st \<noteq> []" "call_body a c P st = Inr st'"
  shows "measure_of a st' < measure_of a st"
proof -
  let ?s1 = "st\<lparr>worklist := butlast (worklist st)\<rparr>"
  from assms(2) obtain s2 where s2: "check_node a c P ?s1 (last (worklist st)) = Inr s2"
    and s3: "call_for_next a (last (worklist st)) (next_nodes a c (last (worklist st))) s2 = Inr st'"
    by (auto simp: call_body_def Let_def split: sum.splits)
  have "measure_of a ?s1 < measure_of a st"
    using assms(1) by (cases a) (simp_all add: measure_of_def)
  moreover have "measure_of a s2 = measure_of a ?s1"
    using s2 by (cases rule: check_node_cases) (simp_all add: measure_of_def)
  ultimately show ?thesis using measure_call_for_next[OF s3] by simp
qed

lemma call_while_terminates: "\<exists>r. call_while a c P st = Some r"
proof (induction "measure_of a st" arbitrary: st rule: less_induct)
  case less
  show ?case
  proof (cases "worklist st = []")
    case True
    then show ?thesis by (subst call_while.simps) simp
  next
    case False
    show ?thesis
    proof (cases "call_body a c P st")
      case (Inl e)
      then show ?thesis using False by (subst call_while.simps) simp
    next
      case (Inr st')
      then have "measure_of a st' < measure_of a st" using False measure_call_body by blast
      from less[OF this] show ?thesis using False Inr by (subst call_while.simps) simp
    qed
  qed
qed

lemma call_while_rule:
  assumes "I st"
    and "\<And>s s'. I s \<Longrightarrow> worklist s \<noteq> [] \<Longrightarrow> call_body a c P s = Inr s' \<Longrightarrow> I s'"
    and "call_while a c P st = Some (Inr st')"
  shows "I st' \<and> worklist st' = []"
  using assms(1,3)
proof (induction "measure_of a st" arbitrary: st rule: less_induct)
  case less
  show ?case
  proof (cases "worklist st = []")
    case True
    then show ?thesis using less.prems by (subst (asm) call_while.simps) simp
  next
    case False
    from less.prems(2) False obtain s1 where s1: "call_body a c P st = Inr s1"
      and r: "call_while a c P s1 = Some (Inr st')"
      by (subst (asm) call_while.simps) (auto split: sum.splits)
    have "measure_of a s1 < measure_of a st" using False s1 measure_call_body by blast
    moreover have "I s1" using assms(2) less.prems(1) False s1 by blast
    ultimately show ?thesis using less.hyps r by blast
  qed
qed


lemma near_far_simps [simp]:
  "near_dict a (st\<lparr>worklist := w\<rparr>) = near_dict a st"
  "far_dict a (st\<lparr>worklist := w\<rparr>) = far_dict a st"
  "near_dict a (st\<lparr>visited := v\<rparr>) = near_dict a st"
  "far_dict a (st\<lparr>visited := v\<rparr>) = far_dict a st"
  by (cases a; simp)+

lemma keys_inv_near_far:
  "keys_inv c st \<longleftrightarrow>
     fmdom' (near_dict a st) = set (get_node_ids c) \<and>
     fmdom' (far_dict a st) = set (get_node_ids c) \<and>
     set (worklist st) \<subseteq> set (get_node_ids c)"
  by (cases a) (auto simp: keys_inv_def)

lemma pre_loop_init_step_fields:
  "far_dict a (pre_loop_init_step a st s) = fmupd s False (far_dict a st)"
  "near_dict a (pre_loop_init_step a st s) = near_dict a st"
  "visited (pre_loop_init_step a st s) = insert s (visited st)"
  "worklist (pre_loop_init_step a st s) = worklist st @ [s]"
  by (cases a; simp)+

lemma pre_loop_init_nodes_subset: "set (pre_loop_init_nodes a c) \<subseteq> set (get_node_ids c)"
  by (cases a) (auto simp: get_exit_node_def get_entry_node_def)

lemma call_init_fields:
  "fmlookup (near_dict a (call_init c)) k = (if k \<in> set (get_node_ids c) then Some True else None)"
  "fmlookup (far_dict a (call_init c)) k = (if k \<in> set (get_node_ids c) then Some True else None)"
  "visited (call_init c) = {}" "worklist (call_init c) = []"
  by (cases a; simp add: call_init_def fmlookup_of_list map_of_map_restrict restrict_map_def)+

lemma fmdom'_all_True:
  "fmdom' (fmap_of_list (map (\<lambda>k. (k, True)) xs)) = set xs"
  by (auto simp: fmlookup_dom'_iff fmlookup_of_list map_of_map_restrict restrict_map_def split: if_splits)

lemma keys_inv_init: "keys_inv c (call_init c)"
  by (simp add: keys_inv_def call_init_def fmdom'_all_True)

lemma keys_lookup:
  assumes "keys_inv c st" "k \<in> set (get_node_ids c)"
  obtains b f where "fmlookup (near_dict a st) k = Some b" "fmlookup (far_dict a st) k = Some f"
proof -
  from assms have "k \<in> fmdom' (near_dict a st)" "k \<in> fmdom' (far_dict a st)"
    by (simp_all add: keys_inv_near_far[of c st a])
  then show thesis using that by (auto simp: fmlookup_dom'_iff)
qed

lemma keys_inv_seed:
  "keys_inv c st \<Longrightarrow> s \<in> set (get_node_ids c) \<Longrightarrow> keys_inv c (pre_loop_init_step a st s)"
  by (cases a) (auto simp: keys_inv_def)

lemma keys_inv_pop:
  "keys_inv c st \<Longrightarrow> keys_inv c (st\<lparr>worklist := butlast (worklist st)\<rparr>)"
  by (auto simp: keys_inv_def dest: in_set_butlastD)

lemma keys_inv_check_node:
  assumes "keys_inv c st" "nid \<in> set (get_node_ids c)" "check_node a c P st nid = Inr st'"
  shows "keys_inv c st'"
  using assms(3)
  by (cases rule: check_node_cases)
     (use assms(1,2) in \<open>auto simp: keys_inv_near_far[of c _ a]\<close>)

lemma keys_inv_call_next:
  assumes "keys_inv c st" "call_next a nid m st = Inr st'"
  shows "keys_inv c st'"
  using assms(2)
proof (cases rule: call_next_cases)
  case (skip b f)
  then show ?thesis using assms(1) by simp
next
  case (push b f)
  then have "m \<in> set (get_node_ids c)" using assms(1) by (auto simp: keys_inv_near_far[of c _ a] dest: fmdom'I)
  then show ?thesis using assms(1) push by (auto simp: keys_inv_near_far[of c _ a])
qed

lemma keys_inv_call_for_next:
  assumes "keys_inv c st" "call_for_next a nid ms st = Inr st'"
  shows "keys_inv c st'"
  using call_for_next_rule[where Q="\<lambda>_. keys_inv c" and ds="[]", OF assms(1) _ assms(2)]
    keys_inv_call_next by blast

lemma last_in_keys: "keys_inv c st \<Longrightarrow> worklist st \<noteq> [] \<Longrightarrow> last (worklist st) \<in> set (get_node_ids c)"
  by (auto simp: keys_inv_def)

lemma call_body_D:
  assumes "call_body a c P st = Inr st'"
  obtains s2 where "check_node a c P (st\<lparr>worklist := butlast (worklist st)\<rparr>) (last (worklist st)) = Inr s2"
    "call_for_next a (last (worklist st)) (next_nodes a c (last (worklist st))) s2 = Inr st'"
  using assms by (auto simp: call_body_def Let_def split: sum.splits)

lemma keys_inv_call_body:
  assumes "keys_inv c st" "worklist st \<noteq> []" "call_body a c P st = Inr st'"
  shows "keys_inv c st'"
  using assms(3)
proof (rule call_body_D)
  fix s2
  assume c: "check_node a c P (st\<lparr>worklist := butlast (worklist st)\<rparr>) (last (worklist st)) = Inr s2"
    and f: "call_for_next a (last (worklist st)) (next_nodes a c (last (worklist st))) s2 = Inr st'"
  have "keys_inv c s2"
    using keys_inv_check_node[OF keys_inv_pop[OF assms(1)] last_in_keys[OF assms(1,2)] c] .
  then show ?thesis using f by (rule keys_inv_call_for_next)
qed

text \<open>With all keys present and adjacency inside the node ids, only the predicate raises.\<close>

lemma check_node_error:
  assumes "keys_inv c st" "nid \<in> set (get_node_ids c)" "check_node a c P st nid = Inl e"
  shows "P c nid = Inl e"
proof -
  from assms(1,2) obtain f where "fmlookup (far_dict a st) nid = Some f"
    by (rule keys_lookup[of c st nid a])
  with assms(3) show ?thesis by (cases a; cases f) (auto split: sum.splits)
qed

lemma call_next_no_error:
  assumes "keys_inv c st" "nid \<in> set (get_node_ids c)" "m \<in> set (get_node_ids c)"
  shows "\<exists>st'. call_next a nid m st = Inr st'"
proof -
  obtain b where b: "fmlookup (near_dict a st) nid = Some b"
    using assms(1,2) by (rule keys_lookup[of c st nid a])
  obtain f where f: "fmlookup (far_dict a st) m = Some f"
    using assms(1,3) by (rule keys_lookup[of c st m a])
  note b f
  then show ?thesis by (cases a) (auto simp: call_next_def)
qed

lemma call_for_next_no_error:
  assumes "keys_inv c st" "nid \<in> set (get_node_ids c)" "set ms \<subseteq> set (get_node_ids c)"
  shows "\<exists>st'. call_for_next a nid ms st = Inr st'"
  using assms
proof (induction ms arbitrary: st)
  case Nil
  then show ?case by simp
next
  case (Cons m ms)
  have "m \<in> set (get_node_ids c)" using Cons.prems(3) by simp
  from call_next_no_error[OF Cons.prems(1,2) this]
  obtain s1 where s1: "call_next a nid m st = Inr s1" by blast
  then have "keys_inv c s1" using Cons.prems(1) keys_inv_call_next by blast
  moreover have "set ms \<subseteq> set (get_node_ids c)" using Cons.prems(3) by simp
  ultimately obtain s2 where "call_for_next a nid ms s1 = Inr s2"
    using Cons.IH Cons.prems(2) by blast
  with s1 show ?case by simp
qed

lemma call_body_error:
  assumes "keys_inv c st" "worklist st \<noteq> []" "well_formed a c" "call_body a c P st = Inl e"
  shows "P c (last (worklist st)) = Inl e"
proof -
  let ?nid = "last (worklist st)"
  let ?s1 = "st\<lparr>worklist := butlast (worklist st)\<rparr>"
  have nid: "?nid \<in> set (get_node_ids c)" using assms(1,2) by (rule last_in_keys)
  have k1: "keys_inv c ?s1" using assms(1) by (rule keys_inv_pop)
  show ?thesis
  proof (cases "check_node a c P ?s1 ?nid")
    case (Inl e')
    with assms(4) have "e' = e" by (simp add: call_body_def Let_def)
    with Inl check_node_error[OF k1 nid] show ?thesis by simp
  next
    case (Inr s2)
    have "keys_inv c s2" using keys_inv_check_node[OF k1 nid Inr] .
    moreover have "set (next_nodes a c ?nid) \<subseteq> set (get_node_ids c)"
      using assms(3) nid by (auto simp: well_formed_def)
    ultimately obtain s3 where "call_for_next a ?nid (next_nodes a c ?nid) s2 = Inr s3"
      using call_for_next_no_error nid by blast
    with Inr assms(4) show ?thesis by (simp add: call_body_def Let_def)
  qed
qed

lemma call_while_error:
  assumes "keys_inv c st" "well_formed a c" "call_while a c P st = Some (Inl e)"
  shows "\<exists>nid \<in> set (get_node_ids c). P c nid = Inl e"
  using assms(1,3)
proof (induction "measure_of a st" arbitrary: st rule: less_induct)
  case less
  have ne: "worklist st \<noteq> []"
    using less.prems(2) by (subst (asm) call_while.simps) (auto split: if_splits)
  show ?case
  proof (cases "call_body a c P st")
    case (Inl e')
    with less.prems(2) ne have "e' = e" by (subst (asm) call_while.simps) simp
    with Inl call_body_error[OF less.prems(1) ne assms(2)] last_in_keys[OF less.prems(1) ne]
    show ?thesis by blast
  next
    case (Inr s1)
    then have "call_while a c P s1 = Some (Inl e)"
      using less.prems(2) ne by (subst (asm) call_while.simps) simp
    moreover have "measure_of a s1 < measure_of a st" using ne Inr by (rule measure_call_body)
    moreover have "keys_inv c s1" using less.prems(1) ne Inr by (rule keys_inv_call_body)
    ultimately show ?thesis using less.hyps by blast
  qed
qed


lemma facts_decrease_near_far:
  "facts_decrease st st' \<longleftrightarrow>
     fact_decrease (near_dict a st) (near_dict a st') \<and> fact_decrease (far_dict a st) (far_dict a st')"
  by (cases a) (auto simp: facts_decrease_def)

lemma fact_decrease_refl: "fact_decrease d d"
  by (simp add: fact_decrease_def)

lemma fact_decrease_upd:
  assumes "fmlookup d k = Some v" "v = False \<longrightarrow> v' = False"
  shows "fact_decrease d (fmupd k v' d)"
  using assms by (cases v; cases v') (auto simp: fact_decrease_def)

lemma mono_inv_init: "mono_inv a c P (call_init c)"
  by (simp add: mono_inv_def call_init_fields)

lemma mono_inv_seed: "mono_inv a c P st \<Longrightarrow> mono_inv a c P (pre_loop_init_step a st s)"
  by (simp add: mono_inv_def pre_loop_init_step_fields)

lemma mono_inv_worklist [simp]: "mono_inv a c P (st\<lparr>worklist := w\<rparr>) = mono_inv a c P st"
  by (simp add: mono_inv_def)

lemma mono_inv_check_node:
  assumes "mono_inv a c P st" "check_node a c P st nid = Inr st'"
  shows "mono_inv a c P st'"
  using assms(2)
proof (cases rule: check_node_cases)
  case top
  then show ?thesis using assms(1) by (simp add: mono_inv_def)
next
  case (bot b)
  then show ?thesis using assms(1) by (simp add: mono_inv_def)
qed

lemma mono_inv_call_next:
  assumes "mono_inv a c P st" "call_next a nid m st = Inr st'"
  shows "mono_inv a c P st'"
  using assms(2)
proof (cases rule: call_next_cases)
  case (skip b f)
  then show ?thesis using assms(1) by simp
next
  case (push b f)
  have J: "\<And>k. k \<notin> visited st \<Longrightarrow> fmlookup (far_dict a st) k \<noteq> Some False"
    and K: "\<And>k. fmlookup (near_dict a st) k = Some False \<Longrightarrow>
          fmlookup (far_dict a st) k = Some False \<and> P c k = Inr False"
    using assms(1) by (auto simp: mono_inv_def)
  have 1: "\<forall>k. k \<notin> visited st' \<longrightarrow> fmlookup (far_dict a st') k \<noteq> Some False"
    using push J by simp
  have 2: "fmlookup (far_dict a st') k = Some False \<and> P c k = Inr False"
    if k: "fmlookup (near_dict a st') k = Some False" for k
  proof (cases "k = m")
    case False
    then show ?thesis using K[of k] k push by simp
  next
    case True
    have km: "fmlookup (far_dict a st) m = Some False \<and> P c m = Inr False"
      using K[of m] k True push by simp
    then have "f = False" using push(2) by simp
    then have "m \<in> visited st" using J[of m] push(2) by blast
    with push(3) have "b < f" by blast
    with \<open>f = False\<close> show ?thesis by simp
  qed
  show ?thesis unfolding mono_inv_def using 1 2 by blast
qed

lemma decrease_seed:
  assumes "keys_inv c st" "s \<in> set (get_node_ids c)"
  shows "facts_decrease st (pre_loop_init_step a st s)"
proof -
  obtain f where "fmlookup (far_dict a st) s = Some f"
    using assms by (rule keys_lookup[of c st s a])
  then show ?thesis
    by (simp add: facts_decrease_near_far[of _ _ a] pre_loop_init_step_fields
        fact_decrease_refl fact_decrease_upd)
qed

lemma decrease_check_node:
  assumes "keys_inv c st" "mono_inv a c P st" "nid \<in> set (get_node_ids c)"
    "check_node a c P st nid = Inr st'"
  shows "facts_decrease st st'"
proof -
  obtain b0 where b0: "fmlookup (near_dict a st) nid = Some b0"
    using assms(1,3) by (rule keys_lookup[of c st nid a])
  have K: "b0 = False \<Longrightarrow> fmlookup (far_dict a st) nid = Some False \<and> P c nid = Inr False"
    using assms(2) b0 by (simp add: mono_inv_def)
  from assms(4) show ?thesis
  proof (cases rule: check_node_cases)
    case top
    with K have "b0 = False \<longrightarrow> True = False" by auto
    with b0 have "fact_decrease (near_dict a st) (fmupd nid True (near_dict a st))"
      by (rule fact_decrease_upd)
    with top show ?thesis
      by (simp add: facts_decrease_near_far[of _ _ a] fact_decrease_refl)
  next
    case (bot b)
    with K have "b0 = False \<longrightarrow> b = False" by auto
    with b0 have "fact_decrease (near_dict a st) (fmupd nid b (near_dict a st))"
      by (rule fact_decrease_upd)
    with bot show ?thesis
      by (simp add: facts_decrease_near_far[of _ _ a] fact_decrease_refl)
  qed
qed

lemma decrease_call_next:
  assumes "mono_inv a c P st" "call_next a nid m st = Inr st'"
  shows "facts_decrease st st'"
  using assms(2)
proof (cases rule: call_next_cases)
  case (skip b f)
  then show ?thesis by (simp add: facts_decrease_def fact_decrease_refl)
next
  case (push b f)
  have "f = False \<longrightarrow> b = False"
  proof
    assume f: "f = False"
    then have "m \<in> visited st" using assms(1) push(2) by (auto simp: mono_inv_def)
    with push(3) have "b < f" by blast
    with f show "b = False" by simp
  qed
  with push show ?thesis
    by (simp add: facts_decrease_near_far[of _ _ a] fact_decrease_refl fact_decrease_upd)
qed

lemma run_step_inv:
  assumes "keys_inv c st" "mono_inv a c P st" "run_step a c P st st'"
  shows "keys_inv c st' \<and> mono_inv a c P st' \<and> facts_decrease st st'"
  using assms(3)
proof cases
  case (seed s)
  then have s: "s \<in> set (get_node_ids c)" using pre_loop_init_nodes_subset by blast
  show ?thesis unfolding seed(1)
    using keys_inv_seed[OF assms(1) s] mono_inv_seed[OF assms(2)] decrease_seed[OF assms(1) s]
    by blast
next
  case check
  let ?s1 = "st\<lparr>worklist := butlast (worklist st)\<rparr>"
  have nid: "last (worklist st) \<in> set (get_node_ids c)" using assms(1) check(1) by (rule last_in_keys)
  have k1: "keys_inv c ?s1" using assms(1) by (rule keys_inv_pop)
  have m1: "mono_inv a c P ?s1" using assms(2) by simp
  have "facts_decrease ?s1 st'" using k1 m1 nid check(2) by (rule decrease_check_node)
  then have "facts_decrease st st'" by (simp add: facts_decrease_def)
  then show ?thesis
    using keys_inv_check_node[OF k1 nid check(2)] mono_inv_check_node[OF m1 check(2)] by blast
next
  case (neighbour nid m)
  then show ?thesis
    using keys_inv_call_next[OF assms(1)] mono_inv_call_next[OF assms(2)] decrease_call_next[OF assms(2)]
    by blast
qed

lemma run_state_inv: "run_state a c P st \<Longrightarrow> keys_inv c st \<and> mono_inv a c P st"
proof (induction rule: run_state.induct)
  case init
  then show ?case by (simp add: keys_inv_init mono_inv_init)
next
  case (step st st')
  then show ?case using run_step_inv by blast
qed

lemma call_for_seeds_terminates: "\<exists>r. call_for_seeds a c P seeds st = Some r"
proof (induction seeds arbitrary: st)
  case Nil
  then show ?case by simp
next
  case (Cons s seeds)
  obtain r where r: "call_while a c P (pre_loop_init_step a st s) = Some r"
    using call_while_terminates by blast
  show ?case
  proof (cases r)
    case (Inl e)
    with r show ?thesis by simp
  next
    case (Inr s1)
    with r Cons.IH[of s1] show ?thesis by simp
  qed
qed

lemma call_for_seeds_rule:
  assumes "Q ds st"
    and "\<And>ds s st. Q ds st \<Longrightarrow> s \<in> S \<Longrightarrow> Q (ds @ [s]) (pre_loop_init_step a st s)"
    and "\<And>ds st st'. Q ds st \<Longrightarrow> worklist st \<noteq> [] \<Longrightarrow> call_body a c P st = Inr st' \<Longrightarrow> Q ds st'"
    and "set seeds \<subseteq> S"
    and "call_for_seeds a c P seeds st = Some (Inr st')"
  shows "Q (ds @ seeds) st'"
  using assms(1,4,5)
proof (induction seeds arbitrary: ds st)
  case Nil
  then show ?case by simp
next
  case (Cons s seeds)
  from Cons.prems(3) obtain s1 where w: "call_while a c P (pre_loop_init_step a st s) = Some (Inr s1)"
    and rest: "call_for_seeds a c P seeds s1 = Some (Inr st')"
    by (auto split: option.splits sum.splits)
  have "Q (ds @ [s]) (pre_loop_init_step a st s)"
    using assms(2) Cons.prems(1,2) by simp
  then have "Q (ds @ [s]) s1"
    using call_while_rule[where I="Q (ds @ [s])", OF _ _ w] assms(3) by blast
  from Cons.IH[OF this _ rest] Cons.prems(2) show ?case by simp
qed

lemma call_for_seeds_worklist:
  assumes "worklist st = []" "call_for_seeds a c P seeds st = Some (Inr st')"
  shows "worklist st' = []"
  using assms
proof (induction seeds arbitrary: st)
  case Nil
  then show ?case by simp
next
  case (Cons s seeds)
  from Cons.prems(2) obtain s1 where w: "call_while a c P (pre_loop_init_step a st s) = Some (Inr s1)"
    and rest: "call_for_seeds a c P seeds s1 = Some (Inr st')"
    by (auto split: option.splits sum.splits)
  have "worklist s1 = []"
    using call_while_rule[where I="\<lambda>_. True", OF _ _ w] by simp
  from Cons.IH[OF this rest] show ?case .
qed

lemma call_for_seeds_keys_inv:
  assumes "keys_inv c st" "set seeds \<subseteq> set (get_node_ids c)"
    "call_for_seeds a c P seeds st = Some (Inr st')"
  shows "keys_inv c st'"
proof -
  have "(\<lambda>_. keys_inv c) ([] @ seeds) st'"
  proof (rule call_for_seeds_rule[where S="set (get_node_ids c)", OF _ _ _ assms(2,3)])
    show "keys_inv c st" by (rule assms(1))
  next
    fix s s0
    assume "keys_inv c s0" "s \<in> set (get_node_ids c)"
    then show "keys_inv c (pre_loop_init_step a s0 s)" by (rule keys_inv_seed)
  next
    fix s0 s1
    assume "keys_inv c s0" "worklist s0 \<noteq> []" "call_body a c P s0 = Inr s1"
    then show "keys_inv c s1" by (rule keys_inv_call_body)
  qed
  then show ?thesis .
qed

lemma call_for_seeds_error:
  assumes "keys_inv c st" "well_formed a c" "set seeds \<subseteq> set (get_node_ids c)"
    "call_for_seeds a c P seeds st = Some (Inl e)"
  shows "\<exists>nid \<in> set (get_node_ids c). P c nid = Inl e"
  using assms(1,3,4)
proof (induction seeds arbitrary: st)
  case Nil
  then show ?case by simp
next
  case (Cons s seeds)
  have k0: "keys_inv c (pre_loop_init_step a st s)"
    using Cons.prems(1,2) by (simp add: keys_inv_seed)
  obtain r where r: "call_while a c P (pre_loop_init_step a st s) = Some r"
    using call_while_terminates by blast
  show ?case
  proof (cases r)
    case (Inl e')
    with r Cons.prems(3) have "e' = e" by simp
    with Inl r call_while_error[OF k0 assms(2)] show ?thesis by blast
  next
    case (Inr s1)
    have "keys_inv c s1"
      using call_while_rule[where I="keys_inv c", OF k0 _ r[unfolded Inr]] keys_inv_call_body by blast
    moreover have "call_for_seeds a c P seeds s1 = Some (Inl e)"
      using Cons.prems(3) r Inr by simp
    ultimately show ?thesis using Cons.IH Cons.prems(2) by simp
  qed
qed

lemma call_run_terminates: "\<exists>r. call_run a c P = Some r"
  unfolding call_run_def by (rule call_for_seeds_terminates)

lemma call_run_error:
  assumes "well_formed a c" "call_run a c P = Some (Inl e)"
  shows "\<exists>nid \<in> set (get_node_ids c). P c nid = Inl e"
  using call_for_seeds_error[OF keys_inv_init assms(1) pre_loop_init_nodes_subset]
    assms(2) unfolding call_run_def by blast

lemma call_run_returns:
  assumes "well_formed a c" "returns_bool c P"
  shows "\<exists>st. call_run a c P = Some (Inr st)"
proof -
  obtain r where r: "call_run a c P = Some r" using call_run_terminates by blast
  show ?thesis
  proof (cases r)
    case (Inl e)
    with r call_run_error[OF assms(1)] obtain nid where
      "nid \<in> set (get_node_ids c)" "P c nid = Inl e" by blast
    with assms(2) show ?thesis by (auto simp: returns_bool_def)
  next
    case (Inr st)
    with r show ?thesis by simp
  qed
qed

lemma call_run_keys_inv: "call_run a c P = Some (Inr st) \<Longrightarrow> keys_inv c st"
  unfolding call_run_def
  using call_for_seeds_keys_inv[OF keys_inv_init pre_loop_init_nodes_subset] by blast

lemma call_run_worklist: "call_run a c P = Some (Inr st) \<Longrightarrow> worklist st = []"
  unfolding call_run_def
  using call_for_seeds_worklist[of "call_init c"] by (simp add: call_init_def)

lemma call_eq:
  "call a c P = Some (Inr (i, out)) \<longleftrightarrow>
     (\<exists>st. call_run a c P = Some (Inr st) \<and> i = in_dict st \<and> out = out_dict st)"
  "call a c P = Some (Inl e) \<longleftrightarrow> call_run a c P = Some (Inl e)"
  "call a c P = None \<longleftrightarrow> call_run a c P = None"
  by (cases "call_run a c P"; cases "the (call_run a c P)"; auto simp: call_def)+

lemma call_for_next_run_steps:
  assumes "Q st" "\<And>s s'. Q s \<Longrightarrow> run_step a c P s s' \<Longrightarrow> Q s'"
    "call_for_next a nid ms st = Inr st'"
  shows "Q st'"
proof -
  have "(\<lambda>_. Q) ([] @ ms) st'"
  proof (rule call_for_next_rule[OF _ _ assms(3)])
    show "Q st" by (rule assms(1))
  next
    fix m s s'
    assume "Q s" "call_next a nid m s = Inr s'"
    then show "Q s'" using assms(2) run_step.neighbour by blast
  qed
  then show ?thesis .
qed

lemma call_body_run_steps:
  assumes "Q st" "\<And>s s'. Q s \<Longrightarrow> run_step a c P s s' \<Longrightarrow> Q s'"
    "worklist st \<noteq> []" "call_body a c P st = Inr st'"
  shows "Q st'"
  using assms(4)
proof (rule call_body_D)
  fix s2
  assume ch: "check_node a c P (st\<lparr>worklist := butlast (worklist st)\<rparr>) (last (worklist st)) = Inr s2"
    and f: "call_for_next a (last (worklist st)) (next_nodes a c (last (worklist st))) s2 = Inr st'"
  have "run_step a c P st s2" using assms(3) ch by (rule run_step.check)
  then have "Q s2" using assms(1,2) by blast
  then show "Q st'" using assms(2) f by (rule call_for_next_run_steps)
qed

lemma call_run_run_state:
  assumes "call_run a c P = Some (Inr st)"
  shows "run_state a c P st"
proof -
  have "(\<lambda>_. run_state a c P) ([] @ pre_loop_init_nodes a c) st"
  proof (rule call_for_seeds_rule[where S="set (pre_loop_init_nodes a c)",
        OF _ _ _ _ assms[unfolded call_run_def]])
    show "run_state a c P (call_init c)" by (rule run_state.init)
  next
    fix s s0
    assume "run_state a c P s0" "s \<in> set (pre_loop_init_nodes a c)"
    then show "run_state a c P (pre_loop_init_step a s0 s)"
      using run_state.step run_step.seed by blast
  next
    fix s0 s1
    assume "run_state a c P s0" "worklist s0 \<noteq> []" "call_body a c P s0 = Inr s1"
    then show "run_state a c P s1"
      using call_body_run_steps[where Q="run_state a c P"] run_state.step by blast
  qed simp
  then show ?thesis .
qed

lemma run_step_far_False:
  assumes "run_state a c P st" "run_step a c P st st'" "fmlookup (far_dict a st) k = Some False"
  shows "fmlookup (far_dict a st') k = Some False"
proof -
  have "facts_decrease st st'"
    using run_state_inv[OF assms(1)] run_step_inv[OF _ _ assms(2)] by blast
  then have "fact_decrease (far_dict a st) (far_dict a st')"
    by (simp add: facts_decrease_near_far[of _ _ a])
  then have "fmlookup (far_dict a st') k = fmlookup (far_dict a st) k \<or>
      (fmlookup (far_dict a st) k = Some True \<and> fmlookup (far_dict a st') k = Some False)"
    unfolding fact_decrease_def by (rule spec)
  with assms(3) show ?thesis by auto
qed

lemma call_run_seeds_False:
  assumes "call_run a c P = Some (Inr st)" "s \<in> set (pre_loop_init_nodes a c)"
  shows "fmlookup (far_dict a st) s = Some False"
proof -
  let ?Q = "\<lambda>ds st. run_state a c P st \<and> (\<forall>s \<in> set ds. fmlookup (far_dict a st) s = Some False)"
  have stable: "?Q ds s1" if "?Q ds s0" "run_step a c P s0 s1" for ds s0 s1
    using that run_state.step run_step_far_False by blast
  have "?Q ([] @ pre_loop_init_nodes a c) st"
  proof (rule call_for_seeds_rule[where S="set (pre_loop_init_nodes a c)",
        OF _ _ _ _ assms(1)[unfolded call_run_def]])
    show "?Q [] (call_init c)" by (simp add: run_state.init)
  next
    fix ds s s0
    assume q: "?Q ds s0" and s: "s \<in> set (pre_loop_init_nodes a c)"
    have "run_step a c P s0 (pre_loop_init_step a s0 s)" using s by (rule run_step.seed)
    with q have "?Q ds (pre_loop_init_step a s0 s)" by (rule stable)
    then show "?Q (ds @ [s]) (pre_loop_init_step a s0 s)"
      by (simp add: pre_loop_init_step_fields)
  next
    fix ds s0 s1
    assume "?Q ds s0" "worklist s0 \<noteq> []" "call_body a c P s0 = Inr s1"
    then show "?Q ds s1"
      using call_body_run_steps[where Q="?Q ds" and st=s0 and st'=s1] stable by blast
  qed simp
  with assms(2) show ?thesis by simp
qed

lemma fix_inv_init: "fix_inv a c P G (call_init c)"
  by (simp add: fix_inv_def node_ok_def edge_ok_def call_init_fields)

lemma fix_inv_seed:
  assumes "fix_inv a c P G st"
  shows "fix_inv a c P G (pre_loop_init_step a st s)"
  unfolding fix_inv_def
proof (intro allI impI)
  fix n assume "n \<notin> set (worklist (pre_loop_init_step a st s))"
  then have n: "n \<noteq> s" "n \<notin> set (worklist st)" by (simp_all add: pre_loop_init_step_fields)
  then have old: "node_ok a c P st n" "\<forall>m \<in> G n. edge_ok a st n m"
    using assms by (simp_all add: fix_inv_def)
  have "node_ok a c P (pre_loop_init_step a st s) n"
    using old(1) n(1) by (simp add: node_ok_def pre_loop_init_step_fields)
  moreover have "\<forall>m \<in> G n. edge_ok a (pre_loop_init_step a st s) n m"
    using old(2) by (simp add: edge_ok_def pre_loop_init_step_fields)
  ultimately show "node_ok a c P (pre_loop_init_step a st s) n \<and>
      (\<forall>m \<in> G n. edge_ok a (pre_loop_init_step a st s) n m)" by simp
qed

lemma not_in_butlast:
  "wl \<noteq> [] \<Longrightarrow> n \<notin> set (butlast wl) \<Longrightarrow> n \<noteq> last wl \<Longrightarrow> n \<notin> set wl"
  by (cases wl rule: rev_cases) simp_all

lemma fix_inv_check:
  assumes "fix_inv a c P G st" "worklist st \<noteq> []"
    "check_node a c P (st\<lparr>worklist := butlast (worklist st)\<rparr>) (last (worklist st)) = Inr s2"
  shows "fix_inv a c P (G(last (worklist st) := {})) s2"
proof -
  let ?nid = "last (worklist st)"
  have old: "node_ok a c P st n \<and> (\<forall>m \<in> G n. edge_ok a st n m)"
    if "n \<notin> set (butlast (worklist st))" "n \<noteq> ?nid" for n
  proof -
    have "n \<notin> set (worklist st)" using assms(2) that by (rule not_in_butlast)
    with assms(1) show ?thesis by (simp add: fix_inv_def)
  qed
  from assms(3) show ?thesis
  proof (cases rule: check_node_cases)
    case top
    show ?thesis unfolding fix_inv_def
    proof (intro allI impI)
      fix n assume "n \<notin> set (worklist s2)"
      then have n: "n \<notin> set (butlast (worklist st))" using top by simp
      show "node_ok a c P s2 n \<and> (\<forall>m \<in> (G(?nid := {})) n. edge_ok a s2 n m)"
      proof (cases "n = ?nid")
        case True
        then show ?thesis using top by (simp add: node_ok_def)
      next
        case False
        with old[OF n False] top show ?thesis by (simp add: node_ok_def edge_ok_def)
      qed
    qed
  next
    case (bot b)
    show ?thesis unfolding fix_inv_def
    proof (intro allI impI)
      fix n assume "n \<notin> set (worklist s2)"
      then have n: "n \<notin> set (butlast (worklist st))" using bot by simp
      show "node_ok a c P s2 n \<and> (\<forall>m \<in> (G(?nid := {})) n. edge_ok a s2 n m)"
      proof (cases "n = ?nid")
        case True
        then show ?thesis using bot by (simp add: node_ok_def)
      next
        case False
        with old[OF n False] bot show ?thesis by (simp add: node_ok_def edge_ok_def)
      qed
    qed
  qed
qed

lemma fix_inv_call_next:
  assumes "mono_inv a c P st" "fix_inv a c P G st" "call_next a nid m st = Inr st'"
  shows "fix_inv a c P (G(nid := insert m (G nid))) st'"
  using assms(3)
proof (cases rule: call_next_cases)
  case (skip b f)
  have "\<not> (b = False \<and> f = True)" using skip(3) by auto
  then have e: "edge_ok a st nid m" using skip(1,2) by (simp add: edge_ok_def)
  show ?thesis unfolding fix_inv_def skip(5)
  proof (intro allI impI)
    fix n assume "n \<notin> set (worklist st)"
    then have "node_ok a c P st n" "\<forall>m \<in> G n. edge_ok a st n m"
      using assms(2) by (simp_all add: fix_inv_def)
    with e show "node_ok a c P st n \<and> (\<forall>m' \<in> (G(nid := insert m (G nid))) n. edge_ok a st n m')"
      by (cases "n = nid") simp_all
  qed
next
  case (push b f)
  have J: "m \<notin> visited st \<Longrightarrow> f = True"
    using assms(1) push(2) by (auto simp: mono_inv_def)
  show ?thesis unfolding fix_inv_def
  proof (intro allI impI conjI ballI)
    fix n assume "n \<notin> set (worklist st')"
    then have n: "n \<noteq> m" "n \<notin> set (worklist st)" using push by simp_all
    then have old: "node_ok a c P st n" "\<And>m'. m' \<in> G n \<Longrightarrow> edge_ok a st n m'"
      using assms(2) by (simp_all add: fix_inv_def)
    show "node_ok a c P st' n" using old(1) n(1) push by (simp add: node_ok_def)
    fix m' assume m': "m' \<in> (G(nid := insert m (G nid))) n"
    show "edge_ok a st' n m'"
    proof (cases "m' = m")
      case False
      with m' have "m' \<in> G n" by (cases "n = nid") simp_all
      from old(2)[OF this] False push show ?thesis by (simp add: edge_ok_def)
    next
      case True
      show ?thesis
      proof (cases "n = nid")
        case True
        with \<open>m' = m\<close> push show ?thesis by (simp add: edge_ok_def)
      next
        case False
        with m' True have "m \<in> G n" by simp
        from old(2)[OF this] have e: "\<not> (fmlookup (near_dict a st) n = Some False \<and> f = True)"
          using push(2) by (simp add: edge_ok_def)
        show ?thesis
        proof (cases "b < f")
          case True
          then have "b = False" by auto
          with \<open>m' = m\<close> push show ?thesis by (simp add: edge_ok_def)
        next
          case False
          with push(3) have "m \<notin> visited st" by blast
          then have "f = True" by (rule J)
          with e \<open>m' = m\<close> push show ?thesis by (simp add: edge_ok_def)
        qed
      qed
    qed
  qed
qed

lemma mono_inv_call_body:
  assumes "mono_inv a c P st" "call_body a c P st = Inr st'"
  shows "mono_inv a c P st'"
  using assms(2)
proof (rule call_body_D)
  fix s2
  assume ch: "check_node a c P (st\<lparr>worklist := butlast (worklist st)\<rparr>) (last (worklist st)) = Inr s2"
    and f: "call_for_next a (last (worklist st)) (next_nodes a c (last (worklist st))) s2 = Inr st'"
  have m2: "mono_inv a c P s2" using mono_inv_check_node[OF _ ch] assms(1) by simp
  have "(\<lambda>_. mono_inv a c P) ([] @ next_nodes a c (last (worklist st))) st'"
  proof (rule call_for_next_rule[OF _ _ f])
    show "mono_inv a c P s2" by (rule m2)
  next
    fix m s s'
    assume "mono_inv a c P s" "call_next a (last (worklist st)) m s = Inr s'"
    then show "mono_inv a c P s'" by (rule mono_inv_call_next)
  qed
  then show ?thesis .
qed

lemma fix_inv_call_body:
  assumes "mono_inv a c P st" "fix_inv a c P (\<lambda>n. set (next_nodes a c n)) st"
    "worklist st \<noteq> []" "call_body a c P st = Inr st'"
  shows "fix_inv a c P (\<lambda>n. set (next_nodes a c n)) st'"
  using assms(4)
proof (rule call_body_D)
  let ?nid = "last (worklist st)"
  let ?G = "\<lambda>n. set (next_nodes a c n)"
  let ?Q = "\<lambda>ds s. mono_inv a c P s \<and> fix_inv a c P (?G(?nid := set ds)) s"
  fix s2
  assume ch: "check_node a c P (st\<lparr>worklist := butlast (worklist st)\<rparr>) ?nid = Inr s2"
    and f: "call_for_next a ?nid (next_nodes a c ?nid) s2 = Inr st'"
  have m2: "mono_inv a c P s2" using mono_inv_check_node[OF _ ch] assms(1) by simp
  have f2: "fix_inv a c P (?G(?nid := {})) s2" using assms(2,3) ch by (rule fix_inv_check)
  have "?Q ([] @ next_nodes a c ?nid) st'"
  proof (rule call_for_next_rule[OF _ _ f])
    show "?Q [] s2" using m2 f2 by simp
  next
    fix ds m s s'
    assume q: "?Q ds s" and n: "call_next a ?nid m s = Inr s'"
    from q have qm: "mono_inv a c P s" and qf: "fix_inv a c P (?G(?nid := set ds)) s" by simp_all
    have "fix_inv a c P ((?G(?nid := set ds))(?nid := insert m ((?G(?nid := set ds)) ?nid))) s'"
      using qm qf n by (rule fix_inv_call_next)
    moreover have "(?G(?nid := set ds))(?nid := insert m ((?G(?nid := set ds)) ?nid))
        = ?G(?nid := set (ds @ [m]))" by (simp add: fun_eq_iff)
    moreover have "mono_inv a c P s'" using qm n by (rule mono_inv_call_next)
    ultimately show "?Q (ds @ [m]) s'" by simp
  qed
  moreover have "?G(?nid := set (next_nodes a c ?nid)) = ?G" by (simp add: fun_eq_iff)
  ultimately show ?thesis by simp
qed

lemma call_run_fix_inv:
  assumes "call_run a c P = Some (Inr st)"
  shows "node_ok a c P st n" "m \<in> set (next_nodes a c n) \<Longrightarrow> edge_ok a st n m"
proof -
  define G where "G = (\<lambda>n. set (next_nodes a c n))"
  define Q where "Q = (\<lambda>(ds :: int list) s. mono_inv a c P s \<and> fix_inv a c P G s)"
  have "Q ([] @ pre_loop_init_nodes a c) st"
  proof (rule call_for_seeds_rule[where S=UNIV and Q=Q, OF _ _ _ _ assms[unfolded call_run_def]])
    show "Q [] (call_init c)" by (simp add: Q_def mono_inv_init fix_inv_init)
  next
    fix ds s s0
    assume "Q ds s0"
    then show "Q (ds @ [s]) (pre_loop_init_step a s0 s)"
      by (simp add: Q_def mono_inv_seed fix_inv_seed)
  next
    fix ds s0 s1
    assume "Q ds s0" "worklist s0 \<noteq> []" "call_body a c P s0 = Inr s1"
    then show "Q ds s1"
      unfolding Q_def G_def using mono_inv_call_body fix_inv_call_body by blast
  qed simp
  moreover have "worklist st = []" using assms by (rule call_run_worklist)
  ultimately show "node_ok a c P st n" "m \<in> set (next_nodes a c n) \<Longrightarrow> edge_ok a st n m"
    by (simp_all add: Q_def G_def fix_inv_def)
qed

lemma fmupd_same: "fmlookup d k = Some v \<Longrightarrow> fmupd k v d = d"
  by (rule fmap_ext) auto

lemma check_node_stable:
  assumes "fmlookup (near_dict a s) n = Some b" "fmlookup (far_dict a s) n = Some f"
    "node_ok a c P s n"
  shows "\<exists>s'. check_node a c P s n = Inr s' \<and> in_dict s' = in_dict s \<and> out_dict s' = out_dict s"
proof (cases f)
  case True
  with assms have "b = True" by (auto simp: node_ok_def)
  with assms(1,2) True show ?thesis by (cases a) (simp_all add: fmupd_same)
next
  case False
  with assms have "P c n = Inr b" by (auto simp: node_ok_def)
  with assms(1,2) False show ?thesis by (cases a) (simp_all add: fmupd_same)
qed

lemma can_propagate_stable:
  assumes "fmlookup (near_dict a s) n = Some b" "fmlookup (far_dict a s) m = Some f"
    "edge_ok a s n m"
  shows "can_propagate a s n m = Inr False"
proof -
  from assms have "\<not> b < f" by (auto simp: edge_ok_def)
  with assms(1,2) show ?thesis by (cases a) simp_all
qed

text \<open>At a fixpoint no propagation guard holds.\<close>

lemma call_run_no_guard:
  assumes "call_run a c P = Some (Inr st)" "nid \<in> set (get_node_ids c)"
    "m \<in> set (next_nodes a c nid)" "m \<in> set (get_node_ids c)"
  shows "can_propagate a st nid m = Inr False"
proof -
  have k: "keys_inv c st" using assms(1) by (rule call_run_keys_inv)
  obtain b where b: "fmlookup (near_dict a st) nid = Some b"
    using keys_lookup[OF k assms(2), of a] by metis
  obtain f where f: "fmlookup (far_dict a st) m = Some f"
    using keys_lookup[OF k assms(4), of a] by metis
  from b f call_run_fix_inv(2)[OF assms(1,3)] show ?thesis by (rule can_propagate_stable)
qed

text \<open>
  Away from the node id \<open>0\<close> (and from a predicate raising \<open>IndexError\<close>) the loop of
  \<open>main.py\<close> is the loop of \<open>ptfa.py\<close>.
\<close>

lemma main_call_while_eq:
  assumes "keys_inv c st" "0 \<notin> set (get_node_ids c)"
    "\<forall>nid \<in> set (get_node_ids c). P c nid \<noteq> Inl IndexError"
  shows "main_call_while a c P st = call_while a c P st"
  using assms(1)
proof (induction "measure_of a st" arbitrary: st rule: less_induct)
  case less
  show ?case
  proof (cases "worklist st = []")
    case True
    then show ?thesis by (simp add: main_call_while.simps call_while.simps)
  next
    case False
    let ?nid = "last (worklist st)"
    let ?s1 = "st\<lparr>worklist := butlast (worklist st)\<rparr>"
    have nid: "?nid \<in> set (get_node_ids c)" using less.prems False by (rule last_in_keys)
    then have nz: "?nid \<noteq> 0" using assms(2) by auto
    have k1: "keys_inv c ?s1" using less.prems by (rule keys_inv_pop)
    have m: "main_call_while a c P st =
      (case check_node a c P ?s1 ?nid of
         Inl e \<Rightarrow> if e = IndexError then Some (Inr ?s1) else Some (Inl e)
       | Inr st2 \<Rightarrow>
           (case call_for_next a ?nid (next_nodes a c ?nid) st2 of
              Inl e \<Rightarrow> Some (Inl e)
            | Inr st3 \<Rightarrow> main_call_while a c P st3))"
      using False nz by (subst main_call_while.simps) (simp add: Let_def)
    have p: "call_while a c P st =
      (case call_body a c P st of Inl e \<Rightarrow> Some (Inl e) | Inr st' \<Rightarrow> call_while a c P st')"
      using False by (subst call_while.simps) simp
    show ?thesis
    proof (cases "check_node a c P ?s1 ?nid")
      case (Inl e)
      then have "P c ?nid = Inl e" using k1 nid check_node_error by blast
      then have "e \<noteq> IndexError" using assms(3) nid by auto
      with Inl show ?thesis by (simp add: m p call_body_def Let_def)
    next
      case (Inr s2)
      show ?thesis
      proof (cases "call_for_next a ?nid (next_nodes a c ?nid) s2")
        case (Inl e)
        with Inr show ?thesis by (simp add: m p call_body_def Let_def)
      next
        case s3: (Inr s3)
        then have b: "call_body a c P st = Inr s3" using Inr by (simp add: call_body_def Let_def)
        have "measure_of a s3 < measure_of a st" using False b by (rule measure_call_body)
        moreover have "keys_inv c s3" using less.prems False b by (rule keys_inv_call_body)
        ultimately have "main_call_while a c P s3 = call_while a c P s3" by (rule less.hyps)
        with Inr s3 b show ?thesis by (simp add: m p)
      qed
    qed
  qed
qed

lemma main_call_for_seeds_eq:
  assumes "keys_inv c st" "0 \<notin> set (get_node_ids c)"
    "\<forall>nid \<in> set (get_node_ids c). P c nid \<noteq> Inl IndexError"
    "set seeds \<subseteq> set (get_node_ids c)"
  shows "main_call_for_seeds a c P seeds st = call_for_seeds a c P seeds st"
  using assms(1,4)
proof (induction seeds arbitrary: st)
  case Nil
  then show ?case by simp
next
  case (Cons s seeds)
  have k0: "keys_inv c (pre_loop_init_step a st s)"
    using Cons.prems by (simp add: keys_inv_seed)
  have w: "main_call_while a c P (pre_loop_init_step a st s)
      = call_while a c P (pre_loop_init_step a st s)"
    using k0 assms(2,3) by (rule main_call_while_eq)
  obtain r where r: "call_while a c P (pre_loop_init_step a st s) = Some r"
    using call_while_terminates by blast
  show ?case
  proof (cases r)
    case (Inl e)
    with r w show ?thesis by simp
  next
    case (Inr s1)
    have "keys_inv c s1"
      using call_while_rule[where I="keys_inv c", OF k0 _ r[unfolded Inr]] keys_inv_call_body by blast
    then have "main_call_for_seeds a c P seeds s1 = call_for_seeds a c P seeds s1"
      using Cons.IH Cons.prems(2) by simp
    with r w Inr show ?thesis by simp
  qed
qed

lemma main_call_eq_call:
  assumes "0 \<notin> set (get_node_ids c)"
    "\<forall>nid \<in> set (get_node_ids c). P c nid \<noteq> Inl IndexError"
  shows "main_call a c P = call a c P"
proof -
  have "main_call_for_seeds a c P (pre_loop_init_nodes a c) (call_init c)
      = call_for_seeds a c P (pre_loop_init_nodes a c) (call_init c)"
    using keys_inv_init assms pre_loop_init_nodes_subset by (rule main_call_for_seeds_eq)
  then show ?thesis
    by (simp add: main_call_def call_def main_call_run_def call_run_def)
qed

text \<open>The equations that evaluate a run on a concrete graph.\<close>

lemmas eval_defs = call_def call_run_def main_call_def main_call_run_def get_exit_node_def
  get_entry_node_def call_init_def call_while.simps main_call_while.simps call_body_def
  call_next_def check_pattern_def always_True_def in_fact_def out_fact_def final_worklist_def

text \<open>
  \<open>is_fixpoint\<close> tells states apart: right after seeding the Exit node of the chain, the
  node check of that node would still change \<open>in_dict\<close>.
\<close>

lemma seeded_chain_is_no_fixpoint:
  "\<not> is_fixpoint DefinitelyReachablePTFA cfg_chain check_pattern
       (in_dict (pre_loop_init_step DefinitelyReachablePTFA (call_init cfg_chain) 3))
       (out_dict (pre_loop_init_step DefinitelyReachablePTFA (call_init cfg_chain) 3))"
proof -
  have "fmlookup (fmupd 3 False (fmupd (1::int) True (fmupd 2 True (fmupd 3 True fmempty)))) 3
      \<noteq> fmlookup (fmupd (1::int) True (fmupd 2 True (fmupd 3 True fmempty))) 3"
    by simp
  then have "fmupd 3 False (fmupd (1::int) True (fmupd 2 True (fmupd 3 True fmempty)))
      \<noteq> fmupd 1 True (fmupd 2 True (fmupd 3 True fmempty))"
    by metis
  then show ?thesis
    by (simp add: is_fixpoint_def cfg_chain_def call_init_def check_pattern_def)
qed

text \<open>The for loop raises nothing but \<open>KeyError\<close>.\<close>

lemma call_next_raises_KeyError: "call_next a nid m st = Inl e \<Longrightarrow> e = KeyError"
  by (cases a) (auto simp: call_next_def split: option.splits if_splits)

lemma call_for_next_raises_KeyError:
  "call_for_next a nid ms st = Inl e \<Longrightarrow> e = KeyError"
proof (induction ms arbitrary: st)
  case Nil
  then show ?case by simp
next
  case (Cons m ms)
  show ?case
  proof (cases "call_next a nid m st")
    case (Inl e')
    with Cons.prems have "e' = e" by simp
    with Inl show ?thesis using call_next_raises_KeyError by blast
  next
    case (Inr s1)
    with Cons.prems have "call_for_next a nid ms s1 = Inl e" by simp
    then show ?thesis by (rule Cons.IH)
  qed
qed

section \<open>The claims\<close>

text \<open>
  C1 (the loop ends only on an empty worklist). The loop of \<open>ptfa.py\<close> returns with an
  empty worklist (\<open>call_run_worklist\<close>). The loop of \<open>main.py\<close>,
  \<open>while nid := self.worklist.pop()\<close>, also ends when the popped id is \<open>0\<close>: on
  \<open>cfg_zero_fork\<close> it returns with node 2 still on the worklist, and node 0 was popped
  but never checked (\<open>out[0] = False\<close> and the predicate is \<open>False\<close> at 0, so the check
  would write \<open>in[0] = False\<close>, as \<open>ptfa.py\<close> does; \<open>in[0]\<close> stays \<open>True\<close>).
\<close>

theorem main_stops_at_node_zero:
  "final_worklist (main_call_run DefinitelyReachablePTFA cfg_zero_fork check_pattern) = Some [2] \<and>
   out_fact (main_call DefinitelyReachablePTFA cfg_zero_fork check_pattern) 0 = Some False \<and>
   in_fact (main_call DefinitelyReachablePTFA cfg_zero_fork check_pattern) 0 = Some True \<and>
   check_pattern cfg_zero_fork 0 = Inr False \<and>
   final_worklist (call_run DefinitelyReachablePTFA cfg_zero_fork check_pattern) = Some [] \<and>
   in_fact (call DefinitelyReachablePTFA cfg_zero_fork check_pattern) 0 = Some False"
  by (simp add: eval_defs cfg_zero_fork_def)

text \<open>
  C2 (the two construction styles agree). On \<open>cfg_zero\<close>, the chain whose middle node has
  id \<open>0\<close>, \<open>main.py\<close> and \<open>ptfa.py\<close> return different pairs, for both analyses. Where
  \<open>0\<close> is no node id they return the same (\<open>main_call_eq_call\<close>).
\<close>

theorem main_differs_from_ptfa:
  "in_fact (main_call DefinitelyReachablePTFA cfg_zero check_pattern) 0 = Some True \<and>
   in_fact (call DefinitelyReachablePTFA cfg_zero check_pattern) 0 = Some False \<and>
   main_call DefinitelyReachablePTFA cfg_zero check_pattern \<noteq>
     call DefinitelyReachablePTFA cfg_zero check_pattern \<and>
   out_fact (main_call DefinitelyReachingPTFA cfg_zero check_pattern) 0 = Some True \<and>
   out_fact (call DefinitelyReachingPTFA cfg_zero check_pattern) 0 = Some False \<and>
   main_call DefinitelyReachingPTFA cfg_zero check_pattern \<noteq>
     call DefinitelyReachingPTFA cfg_zero check_pattern"
proof -
  have 1: "in_fact (main_call DefinitelyReachablePTFA cfg_zero check_pattern) 0 = Some True"
    by (simp add: eval_defs cfg_zero_def)
  have 2: "in_fact (call DefinitelyReachablePTFA cfg_zero check_pattern) 0 = Some False"
    by (simp add: eval_defs cfg_zero_def)
  have 3: "out_fact (main_call DefinitelyReachingPTFA cfg_zero check_pattern) 0 = Some True"
    by (simp add: eval_defs cfg_zero_def)
  have 4: "out_fact (call DefinitelyReachingPTFA cfg_zero check_pattern) 0 = Some False"
    by (simp add: eval_defs cfg_zero_def)
  from 1 2 have "main_call DefinitelyReachablePTFA cfg_zero check_pattern \<noteq>
     call DefinitelyReachablePTFA cfg_zero check_pattern" by auto
  moreover from 3 4 have "main_call DefinitelyReachingPTFA cfg_zero check_pattern \<noteq>
     call DefinitelyReachingPTFA cfg_zero check_pattern" by auto
  ultimately show ?thesis using 1 2 3 4 by blast
qed

text \<open>
  C3 (fixpoint). On a well-formed CFG, with a predicate that returns a boolean, the pair
  \<open>(in, out)\<close> a Definitely-Reachable or Definitely-Reaching run returns is a fixpoint:
  the node check \<open>near[nid] = far[nid] or P(cfg, nid)\<close> of any node, and the propagation on
  any edge whose guard holds, change no value of the two dictionaries.
\<close>

theorem returned_facts_are_fixpoint:
  assumes "well_formed a c" "returns_bool c P"
  shows "\<exists>i out. call a c P = Some (Inr (i, out)) \<and> is_fixpoint a c P i out"
proof -
  obtain st where st: "call_run a c P = Some (Inr st)"
    using call_run_returns[OF assms] by blast
  define s where "s = \<lparr>visited = {}, worklist = [], in_dict = in_dict st, out_dict = out_dict st\<rparr>"
  have nf: "near_dict a s = near_dict a st" "far_dict a s = far_dict a st"
    by (cases a; simp add: s_def)+
  have io: "in_dict s = in_dict st" "out_dict s = out_dict st" by (simp_all add: s_def)
  have k: "keys_inv c st" using st by (rule call_run_keys_inv)
  have nodes: "node_ok a c P s n" for n
    using call_run_fix_inv(1)[OF st, of n] by (simp add: node_ok_def nf)
  have edges: "edge_ok a s n m" if "m \<in> set (next_nodes a c n)" for n m
    using call_run_fix_inv(2)[OF st that] by (simp add: edge_ok_def nf)
  have "(case check_node a c P s nid of Inl e \<Rightarrow> False
          | Inr s' \<Rightarrow> in_dict s' = in_dict st \<and> out_dict s' = out_dict st) \<and>
        (\<forall>next_nid \<in> set (next_nodes a c nid).
           (case can_propagate a s nid next_nid of Inl e \<Rightarrow> False
            | Inr g \<Rightarrow> g \<longrightarrow>
                (case propagate a s nid next_nid of Inl e \<Rightarrow> False
                 | Inr s' \<Rightarrow> in_dict s' = in_dict st \<and> out_dict s' = out_dict st)))"
    if nid: "nid \<in> set (get_node_ids c)" for nid
  proof
    obtain b f where bf: "fmlookup (near_dict a s) nid = Some b" "fmlookup (far_dict a s) nid = Some f"
      using keys_lookup[OF k nid, of a] nf by metis
    from check_node_stable[OF bf nodes] io
    show "case check_node a c P s nid of Inl e \<Rightarrow> False
          | Inr s' \<Rightarrow> in_dict s' = in_dict st \<and> out_dict s' = out_dict st" by auto
    show "\<forall>next_nid \<in> set (next_nodes a c nid).
           (case can_propagate a s nid next_nid of Inl e \<Rightarrow> False
            | Inr g \<Rightarrow> g \<longrightarrow>
                (case propagate a s nid next_nid of Inl e \<Rightarrow> False
                 | Inr s' \<Rightarrow> in_dict s' = in_dict st \<and> out_dict s' = out_dict st))"
    proof
      fix m assume m: "m \<in> set (next_nodes a c nid)"
      then have "m \<in> set (get_node_ids c)" using assms(1) nid by (simp add: well_formed_def)
      then obtain f' where "fmlookup (far_dict a s) m = Some f'"
        using keys_lookup[OF k, of m a] nf by metis
      from can_propagate_stable[OF bf(1) this edges[OF m]]
      show "case can_propagate a s nid m of Inl e \<Rightarrow> False
            | Inr g \<Rightarrow> g \<longrightarrow>
                (case propagate a s nid m of Inl e \<Rightarrow> False
                 | Inr s' \<Rightarrow> in_dict s' = in_dict st \<and> out_dict s' = out_dict st)" by simp
    qed
  qed
  then have "is_fixpoint a c P (in_dict st) (out_dict st)"
    unfolding is_fixpoint_def Let_def s_def by blast
  with st show ?thesis by (auto simp: call_eq)
qed

theorem returned_facts_are_fixpoint_witness:
  "well_formed DefinitelyReachablePTFA cfg_loop \<and> returns_bool cfg_loop check_pattern \<and>
   (\<exists>i out. call DefinitelyReachablePTFA cfg_loop check_pattern = Some (Inr (i, out)) \<and>
      is_fixpoint DefinitelyReachablePTFA cfg_loop check_pattern i out)"
proof -
  have h1: "well_formed DefinitelyReachablePTFA cfg_loop"
    by (simp add: well_formed_def cfg_loop_def)
  have h2: "returns_bool cfg_loop check_pattern"
    by (simp add: returns_bool_def cfg_loop_def check_pattern_def)
  from returned_facts_are_fixpoint[OF h1 h2] h1 h2 show ?thesis by simp
qed

text \<open>
  C4 (monotone convergence). In every state a run can reach, every write step of the run
  (seeding a node, the node check of the popped node, the guarded propagation to a
  neighbour) leaves each entry of \<open>in_dict\<close> and of \<open>out_dict\<close> unchanged or changes it from
  \<open>True\<close> to \<open>False\<close>; no entry goes from \<open>False\<close> to \<open>True\<close>, and no key appears or
  disappears. The predicate is a function of the CFG and the node id, hence pure. The
  state a run returns, and every state on the way to it, is such a state
  (\<open>call_run_run_state\<close>).
\<close>

theorem writes_only_decrease:
  "run_state a c P st \<Longrightarrow> run_step a c P st st' \<Longrightarrow> facts_decrease st st'"
  using run_state_inv run_step_inv by blast


theorem writes_only_decrease_witness:
  "run_state DefinitelyReachablePTFA cfg_chain check_pattern (call_init cfg_chain) \<and>
   run_step DefinitelyReachablePTFA cfg_chain check_pattern (call_init cfg_chain)
     (pre_loop_init_step DefinitelyReachablePTFA (call_init cfg_chain) 3) \<and>
   facts_decrease (call_init cfg_chain)
     (pre_loop_init_step DefinitelyReachablePTFA (call_init cfg_chain) 3)"
proof -
  have h1: "run_state DefinitelyReachablePTFA cfg_chain check_pattern (call_init cfg_chain)"
    by (rule run_state.init)
  have h2: "run_step DefinitelyReachablePTFA cfg_chain check_pattern (call_init cfg_chain)
     (pre_loop_init_step DefinitelyReachablePTFA (call_init cfg_chain) 3)"
    by (rule run_step.seed) (simp add: cfg_chain_def get_exit_node_def)
  from writes_only_decrease[OF h1 h2] h1 h2 show ?thesis by simp
qed

text \<open>
  C5 (termination). The run returns for every CFG and predicate: the while loop is defined
  so that not returning would be the value \<open>None\<close>, and it is never \<open>None\<close>, cycles or
  not, because \<open>measure_of\<close> decreases with every iteration. On a well-formed CFG
  with a predicate that returns a boolean, the run returns the pair of dictionaries.
\<close>

theorem call_always_returns:
  "(\<exists>r. call a c P = Some r) \<and>
   (well_formed a c \<longrightarrow> returns_bool c P \<longrightarrow> (\<exists>i out. call a c P = Some (Inr (i, out))))"
proof
  obtain r where "call_run a c P = Some r" using call_run_terminates by blast
  then show "\<exists>r. call a c P = Some r" by (simp add: call_def)
next
  show "well_formed a c \<longrightarrow> returns_bool c P \<longrightarrow> (\<exists>i out. call a c P = Some (Inr (i, out)))"
    using call_run_returns[of a c P] by (auto simp: call_eq)
qed

theorem call_always_returns_witness:
  "well_formed DefinitelyReachingPTFA cfg_loop \<and> returns_bool cfg_loop check_pattern \<and>
   (\<exists>i out. call DefinitelyReachingPTFA cfg_loop check_pattern = Some (Inr (i, out)))"
  using call_always_returns[of DefinitelyReachingPTFA cfg_loop check_pattern]
  by (simp add: well_formed_def returns_bool_def cfg_loop_def check_pattern_def)

text \<open>
  C6 (totality). On a well-formed CFG, with a predicate that returns a boolean, the run
  returns two dictionaries whose key sets are both exactly the set of \<open>get_node_ids()\<close>.
\<close>

theorem returned_keys_are_node_ids:
  assumes "well_formed a c" "returns_bool c P"
  shows "\<exists>i out. call a c P = Some (Inr (i, out)) \<and>
           fmdom' i = set (get_node_ids c) \<and> fmdom' out = set (get_node_ids c)"
proof -
  obtain st where st: "call_run a c P = Some (Inr st)"
    using call_run_returns[OF assms] by blast
  then have "keys_inv c st" by (rule call_run_keys_inv)
  with st show ?thesis by (auto simp: call_eq keys_inv_def)
qed

theorem returned_keys_are_node_ids_witness:
  "well_formed DefinitelyReachablePTFA cfg_loop \<and> returns_bool cfg_loop check_pattern \<and>
   (\<exists>i out. call DefinitelyReachablePTFA cfg_loop check_pattern = Some (Inr (i, out)) \<and>
        fmdom' i = {1, 2, 3, 4} \<and> fmdom' out = {1, 2, 3, 4})"
proof -
  have h1: "well_formed DefinitelyReachablePTFA cfg_loop"
    by (simp add: well_formed_def cfg_loop_def)
  have h2: "returns_bool cfg_loop check_pattern"
    by (simp add: returns_bool_def cfg_loop_def check_pattern_def)
  from returned_keys_are_node_ids[OF h1 h2] h1 h2 show ?thesis by (simp add: cfg_loop_def)
qed

text \<open>
  C7 (seed boundary). When a Definitely-Reachable run returns \<open>(in, out)\<close>, \<open>out\<close> is
  \<open>False\<close> at every Exit node; when a Definitely-Reaching run returns \<open>(in, out)\<close>, \<open>in\<close>
  is \<open>False\<close> at every Entry node.
\<close>

theorem seeds_False_at_return:
  "(call DefinitelyReachablePTFA c P = Some (Inr (i, out)) \<longrightarrow>
      (\<forall>nid \<in> set (get_node_ids c). get_type c nid = ''Exit'' \<longrightarrow> fmlookup out nid = Some False)) \<and>
   (call DefinitelyReachingPTFA c P = Some (Inr (i', out')) \<longrightarrow>
      (\<forall>nid \<in> set (get_node_ids c). get_type c nid = ''Entry'' \<longrightarrow> fmlookup i' nid = Some False))"
proof (intro conjI impI ballI)
  fix nid
  assume "call DefinitelyReachablePTFA c P = Some (Inr (i, out))"
    and "nid \<in> set (get_node_ids c)" "get_type c nid = ''Exit''"
  then show "fmlookup out nid = Some False"
    using call_run_seeds_False[of DefinitelyReachablePTFA c P _ nid]
    by (auto simp: call_eq get_exit_node_def)
next
  fix nid
  assume "call DefinitelyReachingPTFA c P = Some (Inr (i', out'))"
    and "nid \<in> set (get_node_ids c)" "get_type c nid = ''Entry''"
  then show "fmlookup i' nid = Some False"
    using call_run_seeds_False[of DefinitelyReachingPTFA c P _ nid]
    by (auto simp: call_eq get_entry_node_def)
qed

theorem seeds_False_at_return_witness:
  "\<exists>i out i' out'.
     call DefinitelyReachablePTFA cfg_loop check_pattern = Some (Inr (i, out)) \<and>
     call DefinitelyReachingPTFA cfg_loop check_pattern = Some (Inr (i', out')) \<and>
     4 \<in> set (get_node_ids cfg_loop) \<and> get_type cfg_loop 4 = ''Exit'' \<and>
     1 \<in> set (get_node_ids cfg_loop) \<and> get_type cfg_loop 1 = ''Entry'' \<and>
     fmlookup out 4 = Some False \<and> fmlookup i' 1 = Some False"
proof -
  have rb: "returns_bool cfg_loop check_pattern"
    by (simp add: returns_bool_def cfg_loop_def check_pattern_def)
  have "well_formed DefinitelyReachablePTFA cfg_loop"
    by (simp add: well_formed_def cfg_loop_def)
  then obtain s1 where s1: "call_run DefinitelyReachablePTFA cfg_loop check_pattern = Some (Inr s1)"
    using call_run_returns rb by blast
  have "well_formed DefinitelyReachingPTFA cfg_loop"
    by (simp add: well_formed_def cfg_loop_def)
  then obtain s2 where s2: "call_run DefinitelyReachingPTFA cfg_loop check_pattern = Some (Inr s2)"
    using call_run_returns rb by blast
  have c1: "call DefinitelyReachablePTFA cfg_loop check_pattern = Some (Inr (in_dict s1, out_dict s1))"
    using s1 by (simp add: call_eq)
  have c2: "call DefinitelyReachingPTFA cfg_loop check_pattern = Some (Inr (in_dict s2, out_dict s2))"
    using s2 by (simp add: call_eq)
  have t: "4 \<in> set (get_node_ids cfg_loop) \<and> get_type cfg_loop 4 = ''Exit'' \<and>
     1 \<in> set (get_node_ids cfg_loop) \<and> get_type cfg_loop 1 = ''Entry''"
    by (simp add: cfg_loop_def)
  from seeds_False_at_return[of cfg_loop check_pattern "in_dict s1" "out_dict s1" "in_dict s2" "out_dict s2"]
    c1 c2 t show ?thesis by blast
qed

text \<open>
  C8 (no seeds). On a CFG without Exit node (Definitely-Reachable) or without Entry node
  (Definitely-Reaching) the run does not fail and returns the initial state, in which both
  dictionaries are \<open>True\<close> at every node id. This holds for every predicate, also one that
  would raise at every node: the predicate is not called.
\<close>

theorem no_seeds_returns_initial:
  assumes "(a = DefinitelyReachablePTFA \<and> (\<forall>nid \<in> set (get_node_ids c). get_type c nid \<noteq> ''Exit'')) \<or>
           (a = DefinitelyReachingPTFA \<and> (\<forall>nid \<in> set (get_node_ids c). get_type c nid \<noteq> ''Entry''))"
  shows "call_run a c P = Some (Inr (call_init c)) \<and>
         call a c P = Some (Inr (in_dict (call_init c), out_dict (call_init c))) \<and>
         (\<forall>nid \<in> set (get_node_ids c).
            fmlookup (in_dict (call_init c)) nid = Some True \<and>
            fmlookup (out_dict (call_init c)) nid = Some True)"
proof -
  from assms have "pre_loop_init_nodes a c = []"
    by (auto simp: get_exit_node_def get_entry_node_def filter_empty_conv)
  then have r: "call_run a c P = Some (Inr (call_init c))" by (simp add: call_run_def)
  then have "call a c P = Some (Inr (in_dict (call_init c), out_dict (call_init c)))"
    by (simp add: call_eq)
  moreover have "\<forall>nid \<in> set (get_node_ids c).
            fmlookup (in_dict (call_init c)) nid = Some True \<and>
            fmlookup (out_dict (call_init c)) nid = Some True"
    using call_init_fields(1,2)[of DefinitelyReachablePTFA c] by simp
  ultimately show ?thesis using r by blast
qed

theorem no_seeds_returns_initial_witness:
  "get_node_ids cfg_single_exit = [1] \<and> get_type cfg_single_exit 1 = ''Exit'' \<and>
   call DefinitelyReachingPTFA cfg_single_exit (\<lambda>c nid. Inl PatternError) =
     Some (Inr (in_dict (call_init cfg_single_exit), out_dict (call_init cfg_single_exit))) \<and>
   fmlookup (in_dict (call_init cfg_single_exit)) 1 = Some True \<and>
   fmlookup (out_dict (call_init cfg_single_exit)) 1 = Some True"
proof -
  have h: "\<forall>nid \<in> set (get_node_ids cfg_single_exit). get_type cfg_single_exit nid \<noteq> ''Entry''"
    by (simp add: cfg_single_exit_def)
  from no_seeds_returns_initial[of DefinitelyReachingPTFA cfg_single_exit "\<lambda>c nid. Inl PatternError"] h
  show ?thesis by (simp add: cfg_single_exit_def)
qed

text \<open>
  C9 (isolated node, as the code has it). The claim reads: on a single isolated node of
  type \<open>Exit\<close> with a predicate that holds there, a Definitely-Reaching run seeds
  \<open>in = False\<close> and returns \<open>in = False\<close>, \<open>out = True\<close>. The run seeds Entry nodes
  only: on \<open>cfg_single_exit\<close> it returns \<open>in = True\<close>.
\<close>

theorem isolated_exit_reaching_counterexample:
  "in_fact (call DefinitelyReachingPTFA cfg_single_exit always_True) 1 = Some True \<and>
   in_fact (call DefinitelyReachingPTFA cfg_single_exit always_True) 1 \<noteq> Some False \<and>
   out_fact (call DefinitelyReachingPTFA cfg_single_exit always_True) 1 = Some True"
  by (simp add: eval_defs cfg_single_exit_def)

text \<open>
  C9, amended. On a CFG consisting of a single isolated node, with a predicate returning
  \<open>True\<close> for it, a Definitely-Reaching run returns \<open>in = False\<close> and \<open>out = True\<close> when
  the node has type \<open>Entry\<close> (it is seeded), and \<open>in = True\<close> and \<open>out = True\<close> when the
  node has type \<open>Exit\<close> (nothing is seeded).
\<close>

theorem isolated_node_reaching:
  assumes "get_node_ids c = [nid]" "get_any_children c nid = []" "P c nid = Inr True"
  shows "(get_type c nid = ''Entry'' \<longrightarrow>
            in_fact (call DefinitelyReachingPTFA c P) nid = Some False \<and>
            out_fact (call DefinitelyReachingPTFA c P) nid = Some True) \<and>
         (get_type c nid = ''Exit'' \<longrightarrow>
            in_fact (call DefinitelyReachingPTFA c P) nid = Some True \<and>
            out_fact (call DefinitelyReachingPTFA c P) nid = Some True)"
  using assms by (simp add: eval_defs)

theorem isolated_node_reaching_witness:
  "get_node_ids cfg_single_entry = [1] \<and> get_any_children cfg_single_entry 1 = [] \<and>
   always_True cfg_single_entry 1 = Inr True \<and> get_type cfg_single_entry 1 = ''Entry'' \<and>
   in_fact (call DefinitelyReachingPTFA cfg_single_entry always_True) 1 = Some False \<and>
   out_fact (call DefinitelyReachingPTFA cfg_single_entry always_True) 1 = Some True"
  using isolated_node_reaching[of cfg_single_entry 1 always_True]
  by (simp add: cfg_single_entry_def always_True_def)

text \<open>
  C10 (missing key). On \<open>cfg_dangling\<close>, whose adjacency leaves the node ids, both analyses
  raise \<open>KeyError\<close> instead of returning; in the backward run the seed 1 is checked
  and the guard for its parent 7 is what raises. On a CFG whose adjacency stays inside the
  node ids, the run raises \<open>KeyError\<close> only if the predicate itself raises it.
\<close>

theorem key_error_only_if_malformed:
  "call DefinitelyReachablePTFA cfg_dangling check_pattern = Some (Inl KeyError) \<and>
   call DefinitelyReachingPTFA cfg_dangling check_pattern = Some (Inl KeyError) \<and>
   \<not> well_formed DefinitelyReachablePTFA cfg_dangling \<and>
   \<not> well_formed DefinitelyReachingPTFA cfg_dangling \<and>
   (\<exists>st. check_node DefinitelyReachablePTFA cfg_dangling check_pattern
           ((pre_loop_init_step DefinitelyReachablePTFA (call_init cfg_dangling) 1)\<lparr>worklist := []\<rparr>) 1
           = Inr st \<and>
         can_propagate DefinitelyReachablePTFA st 1 7 = Inl KeyError) \<and>
   (well_formed a c \<longrightarrow> (\<forall>nid \<in> set (get_node_ids c). P c nid \<noteq> Inl KeyError) \<longrightarrow>
      call a c P \<noteq> Some (Inl KeyError))"
proof (intro conjI impI)
  show "call DefinitelyReachablePTFA cfg_dangling check_pattern = Some (Inl KeyError)"
    by (simp add: call_def call_run_def cfg_dangling_def get_exit_node_def call_init_def
        call_while.simps call_body_def call_next_def check_pattern_def)
  show "call DefinitelyReachingPTFA cfg_dangling check_pattern = Some (Inl KeyError)"
    by (simp add: call_def call_run_def cfg_dangling_def get_entry_node_def call_init_def
        call_while.simps call_body_def call_next_def check_pattern_def)
  show "\<not> well_formed DefinitelyReachablePTFA cfg_dangling"
    by (simp add: well_formed_def cfg_dangling_def)
  show "\<not> well_formed DefinitelyReachingPTFA cfg_dangling"
    by (simp add: well_formed_def cfg_dangling_def)
  show "\<exists>st. check_node DefinitelyReachablePTFA cfg_dangling check_pattern
           ((pre_loop_init_step DefinitelyReachablePTFA (call_init cfg_dangling) 1)\<lparr>worklist := []\<rparr>) 1
           = Inr st \<and>
         can_propagate DefinitelyReachablePTFA st 1 7 = Inl KeyError"
    by (simp add: cfg_dangling_def call_init_def check_pattern_def)
next
  assume "well_formed a c" "\<forall>nid \<in> set (get_node_ids c). P c nid \<noteq> Inl KeyError"
  then show "call a c P \<noteq> Some (Inl KeyError)"
    using call_run_error[of a c P KeyError] by (auto simp: call_eq)
qed

theorem key_error_only_if_malformed_witness:
  "well_formed DefinitelyReachablePTFA cfg_loop \<and>
   get_node_ids cfg_loop = [1, 2, 3, 4] \<and>
   check_pattern cfg_loop 1 = Inr False \<and> check_pattern cfg_loop 2 = Inr False \<and>
   check_pattern cfg_loop 3 = Inr True \<and> check_pattern cfg_loop 4 = Inr False \<and>
   call DefinitelyReachablePTFA cfg_loop check_pattern \<noteq> Some (Inl KeyError)"
  using key_error_only_if_malformed[of DefinitelyReachablePTFA cfg_loop check_pattern]
  by (simp add: well_formed_def cfg_loop_def check_pattern_def)

end
